theory Spec2Isabelle
  imports Complex_Main "HOL-Library.AList" "HOL-Library.Char_ord" "HOL-Library.List_Lexorder"
    "HOL-Library.Product_Lexorder" "HOL-Library.Sublist"
begin

section \<open>Values, attribute bags and errors\<close>

text \<open>
  The attribute bags of the program are Python dictionaries from strings to JSON values.
  A dictionary is an association list with distinct keys in insertion order; a stored key is
  overwritten in place and a new key is appended, which is what \<open>AList.update\<close> does.
  Numbers (Python \<open>int\<close> and \<open>float\<close>) are real numbers: rounding of floating-point
  arithmetic is outside the model. JSON objects nested inside an attribute bag are left out.
\<close>

datatype pyval = VNone | VBool bool | VNum real | VStr string | VList "pyval list"

type_synonym attrs = "(string \<times> pyval) list"

text \<open>
  Every \<open>raise\<close> of the sources is a constructor. The spec's names are used for the
  explicit raises:
  \<^item> \<open>MissingEndpoint\<close>: \<open>ValueError("Add nodes first before linking them: ...")\<close>
  \<^item> \<open>MalformedEdge\<close>: \<open>ValueError("Edge missing ...")\<close>
  \<^item> \<open>UnknownNode\<close>: \<open>ValueError("Start and destination must exist in graph nodes.")\<close>
  \<^item> \<open>AlreadyTraveling\<close>: \<open>RuntimeError("Already traveling along a route.")\<close>
  \<^item> \<open>SameLocation\<close>: \<open>ValueError("Already at that location.")\<close>
  \<^item> \<open>NoSuchRoute\<close>: \<open>ValueError("No route from ... to ...")\<close>
  \<^item> \<open>NoActiveLeg\<close>: \<open>RuntimeError("No active route. Start a leg first.")\<close>
  \<^item> \<open>NonPositiveHours\<close>: \<open>ValueError("Hours traveled must be positive.")\<close>

  \<open>TypeError\<close> and \<open>KeyError\<close> are the errors Python raises by itself.
  \<open>Unmodelled\<close> marks the inputs whose Python behaviour the value type cannot express
  (a numeral written as a string passed to \<open>float\<close>, an identifier that is not a string);
  no theorem below says anything about them.
\<close>

datatype error =
    MissingEndpoint | MalformedEdge | UnknownNode
  | AlreadyTraveling | SameLocation | NoSuchRoute | NoActiveLeg | NonPositiveHours
  | TypeError | KeyError | Unmodelled

definition dict_get :: "attrs \<Rightarrow> string \<Rightarrow> pyval \<Rightarrow> pyval" where
  \<comment> \<open>\<open>d.get(k, default)\<close>\<close>
  "dict_get d k dflt = (case map_of d k of None \<Rightarrow> dflt | Some v \<Rightarrow> v)"

definition dict_has :: "('k \<times> 'v) list \<Rightarrow> 'k \<Rightarrow> bool" where
  \<comment> \<open>\<open>k in d\<close>\<close>
  "dict_has d k = (map_of d k \<noteq> None)"

fun py_float :: "pyval \<Rightarrow> error + real" where
  \<comment> \<open>\<open>float(v)\<close>\<close>
  "py_float (VNum x) = Inr x"
| "py_float (VBool b) = Inr (if b then 1 else 0)"
| "py_float (VStr s) = Inl Unmodelled"
| "py_float VNone = Inl TypeError"
| "py_float (VList xs) = Inl TypeError"

fun py_mul :: "pyval \<Rightarrow> real \<Rightarrow> error + real" where
  \<comment> \<open>\<open>v * x\<close> for a float \<open>x\<close>\<close>
  "py_mul (VNum b) x = Inr (b * x)"
| "py_mul (VBool b) x = Inr ((if b then 1 else 0) * x)"
| "py_mul v x = Inl TypeError"

fun py_add :: "real \<Rightarrow> pyval \<Rightarrow> error + real" where
  \<comment> \<open>\<open>x + v\<close> for a float \<open>x\<close>\<close>
  "py_add x (VNum b) = Inr (x + b)"
| "py_add x (VBool b) = Inr (x + (if b then 1 else 0))"
| "py_add x v = Inl TypeError"

section \<open>travel_gui.py: speeds and difficulty\<close>

definition SPEEDS_KMH :: "(string \<times> real) list" where
  "SPEEDS_KMH =
     [(''foot'', 4.5), (''horse'', 7.0), (''wagon'', 5.0), (''pack_lizard'', 6.0),
      (''barge'', 6.0), (''river_boat'', 9.0), (''row'', 5.5), (''sail'', 12.0),
      (''knarr'', 10.0)]"

definition ROUTE_DIFFICULTY :: "(string \<times> real) list" where
  "ROUTE_DIFFICULTY =
     [(''road'', 1.0), (''trail'', 0.85), (''mountain_pass'', 0.7), (''shore'', 1.0),
      (''sea'', 1.0)]"

definition speed_for_mode :: "string \<Rightarrow> real" where
  "speed_for_mode mode = (case map_of SPEEDS_KMH mode of None \<Rightarrow> 4.5 | Some v \<Rightarrow> v)"

fun route_difficulty_get :: "pyval \<Rightarrow> error + real" where
  \<comment> \<open>\<open>ROUTE_DIFFICULTY.get(route_type, 1.0)\<close>: a list is not hashable; \<open>None\<close>, a
      number or a boolean is hashable and is no key of the table.\<close>
  "route_difficulty_get (VStr s) =
     Inr (case map_of ROUTE_DIFFICULTY s of None \<Rightarrow> 1.0 | Some v \<Rightarrow> v)"
| "route_difficulty_get (VList xs) = Inl TypeError"
| "route_difficulty_get v = Inr 1.0"

definition difficulty_for_edge :: "attrs \<Rightarrow> error + real" where
  "difficulty_for_edge a =
     (if dict_has a ''difficulty_factor'' then py_float (dict_get a ''difficulty_factor'' VNone)
      else if dict_has a ''difficulty_modifier''
        then py_float (dict_get a ''difficulty_modifier'' VNone)
      else route_difficulty_get (dict_get a ''route_type'' VNone))"

text \<open>
  The resolution order in the spec's words, on bags whose difficulty attributes are numbers
  and whose route type is a string (or missing).
\<close>

definition spec_route_table :: "string \<Rightarrow> real" where
  "spec_route_table t =
     (if t = ''road'' then 1.0 else if t = ''trail'' then 0.85
      else if t = ''mountain_pass'' then 0.7 else if t = ''shore'' then 1.0
      else if t = ''sea'' then 1.0 else 1.0)"

definition spec_difficulty :: "real option \<Rightarrow> real option \<Rightarrow> string option \<Rightarrow> real" where
  "spec_difficulty factor modifier route_type =
     (case factor of Some f \<Rightarrow> f
      | None \<Rightarrow> (case modifier of Some m \<Rightarrow> m
          | None \<Rightarrow> (case route_type of Some t \<Rightarrow> spec_route_table t | None \<Rightarrow> 1.0)))"

definition num_attr :: "attrs \<Rightarrow> string \<Rightarrow> real option \<Rightarrow> bool" where
  \<comment> \<open>the attribute is a number, or is missing\<close>
  "num_attr a k r = (map_of a k = map_option VNum r)"

definition str_attr :: "attrs \<Rightarrow> string \<Rightarrow> string option \<Rightarrow> bool" where
  "str_attr a k r = (map_of a k = map_option VStr r)"

definition edge_weight :: "attrs \<Rightarrow> error + real" where
  \<comment> \<open>\<open>base = attrs.get("approx_distance_km", 0.0); weight = base * difficulty_for_edge(attrs)\<close>\<close>
  "edge_weight a =
     (let base = dict_get a ''approx_distance_km'' (VNum 0.0) in
      case difficulty_for_edge a of
        Inl e \<Rightarrow> Inl e
      | Inr d \<Rightarrow> py_mul base d)"

section \<open>travel_gui.py: the trip simulator\<close>

type_synonym adjacency = "(string \<times> (string \<times> attrs) list) list"

definition adj_get :: "adjacency \<Rightarrow> string \<Rightarrow> (string \<times> attrs) list" where
  \<comment> \<open>\<open>adjacency.get(node, [])\<close>\<close>
  "adj_get adj node = (case map_of adj node of None \<Rightarrow> [] | Some l \<Rightarrow> l)"

text \<open>
  Field names are global in a theory, so the field \<open>attrs\<close> of \<open>ActiveLeg\<close> is
  \<open>leg_attrs\<close> here and the field \<open>log\<close> of \<open>TravelSession\<close> is \<open>log_lines\<close>.
\<close>

record ActiveLeg =
  origin :: "string option"
  destination :: string
  leg_attrs :: attrs
  distance_km :: real
  traveled_km :: real

definition remaining_km :: "ActiveLeg \<Rightarrow> real" where
  "remaining_km leg = max 0.0 (distance_km leg - traveled_km leg)"

text \<open>
  A log line is an f-string; the model keeps its arguments instead of the formatted text.
\<close>

datatype log_entry =
    TripBegins string string
  | Departed "string option" string real pyval
  | DayEntry int string real real real real
  | Arrived string

record TravelSession =
  nodes :: "(string \<times> attrs) list"
  adjacency :: adjacency
  start_city :: "string option"
  destination_city :: "string option"
  current_city :: "string option"
  active_leg :: "ActiveLeg option"
  day :: int
  total_traveled_km :: real
  log_lines :: "log_entry list"

definition init_session :: "(string \<times> attrs) list \<Rightarrow> adjacency \<Rightarrow> TravelSession" where
  \<comment> \<open>\<open>TravelSession.__init__\<close>\<close>
  "init_session ns adj =
     \<lparr>nodes = ns, adjacency = adj, start_city = None, destination_city = None,
      current_city = None, active_leg = None, day = 0, total_traveled_km = 0.0,
      log_lines = []\<rparr>"

definition reset_trip :: "TravelSession \<Rightarrow> string \<Rightarrow> string \<Rightarrow> (error + unit) \<times> TravelSession" where
  "reset_trip s start dest =
     (if \<not> dict_has (nodes s) start \<or> \<not> dict_has (nodes s) dest then (Inl UnknownNode, s)
      else (Inr (),
        s\<lparr>start_city := Some start, destination_city := Some dest, current_city := Some start,
          active_leg := None, day := 0, total_traveled_km := 0.0,
          log_lines := [TripBegins start dest]\<rparr>))"

definition available_routes :: "TravelSession \<Rightarrow> (string \<times> attrs) list" where
  \<comment> \<open>\<open>not self.current_city\<close> holds for \<open>None\<close> and for the empty string\<close>
  "available_routes s =
     (case current_city s of
        None \<Rightarrow> []
      | Some c \<Rightarrow> if c = [] then [] else adj_get (adjacency s) c)"

definition route_options :: "(string \<times> attrs) list \<Rightarrow> string \<Rightarrow> attrs option" where
  \<comment> \<open>the dict comprehension \<open>{neighbor: attrs for neighbor, attrs in routes}\<close>:
      a later entry for the same neighbour replaces an earlier one\<close>
  "route_options routes = fold (\<lambda>(neighbor, a) m. m(neighbor \<mapsto> a)) routes Map.empty"

definition start_leg :: "TravelSession \<Rightarrow> string \<Rightarrow> (error + ActiveLeg) \<times> TravelSession" where
  "start_leg s dest =
     (if active_leg s \<noteq> None then (Inl AlreadyTraveling, s)
      else if Some dest = current_city s then (Inl SameLocation, s)
      else (case route_options (available_routes s) dest of
          None \<Rightarrow> (Inl NoSuchRoute, s)
        | Some a \<Rightarrow>
            (case py_float (dict_get a ''approx_distance_km'' (VNum 0.0)) of
               Inl e \<Rightarrow> (Inl e, s)
             | Inr d \<Rightarrow>
                 (let leg = \<lparr>origin = current_city s, destination = dest, leg_attrs = a,
                             distance_km = d, traveled_km = 0.0\<rparr>
                  in (Inr leg,
                      s\<lparr>active_leg := Some leg,
                        log_lines := log_lines s @
                          [Departed (current_city s) dest d
                             (dict_get a ''route_type'' (VStr ''route''))]\<rparr>)))))"

definition isclose :: "real \<Rightarrow> real \<Rightarrow> bool" where
  \<comment> \<open>\<open>math.isclose(a, b)\<close> with its defaults \<open>rel_tol = 1e-09\<close>, \<open>abs_tol = 0.0\<close>\<close>
  "isclose a b =
     (a = b \<or>
      (let diff = \<bar>b - a\<bar> in
         diff \<le> \<bar>(1 / 10 ^ 9) * b\<bar> \<or> diff \<le> \<bar>(1 / 10 ^ 9) * a\<bar> \<or> diff \<le> 0.0))"

record day_result =
  r_day :: int
  r_traveled_km :: real
  r_remaining_leg_km :: real
  r_at_city :: "string option"
  r_reached_destination :: bool

definition travel_day :: "TravelSession \<Rightarrow> string \<Rightarrow> real \<Rightarrow> (error + day_result) \<times> TravelSession" where
  \<comment> \<open>the day counter is incremented before the difficulty is resolved, so an error of
      \<open>difficulty_for_edge\<close> leaves the incremented counter behind\<close>
  "travel_day s mode hours =
     (case active_leg s of
        None \<Rightarrow> (Inl NoActiveLeg, s)
      | Some leg \<Rightarrow>
          if hours \<le> 0 then (Inl NonPositiveHours, s)
          else
            (let s1 = s\<lparr>day := day s + 1\<rparr>;
                 speed = speed_for_mode mode
             in case difficulty_for_edge (leg_attrs leg) of
                  Inl e \<Rightarrow> (Inl e, s1)
                | Inr difficulty \<Rightarrow>
                    (let potential_km = speed * hours * difficulty;
                         remaining = remaining_km leg;
                         traveled = min potential_km remaining;
                         leg1 = leg\<lparr>traveled_km := traveled_km leg + traveled\<rparr>;
                         s2 = s1\<lparr>active_leg := Some leg1,
                                 total_traveled_km := total_traveled_km s1 + traveled\<rparr>;
                         reached_destination =
                           (isclose (traveled_km leg1) (distance_km leg1)
                            \<or> traveled_km leg1 \<ge> distance_km leg1);
                         s3 = s2\<lparr>log_lines := log_lines s2 @
                                 [DayEntry (day s2) mode hours speed difficulty traveled]\<rparr>;
                         s4 = (if reached_destination
                               then s3\<lparr>current_city := Some (destination leg1),
                                       log_lines := log_lines s3 @ [Arrived (destination leg1)],
                                       active_leg := None\<rparr>
                               else s3)
                     in (Inr \<lparr>r_day = day s4, r_traveled_km = traveled,
                              r_remaining_leg_km =
                                (case active_leg s4 of None \<Rightarrow> 0.0 | Some l \<Rightarrow> remaining_km l),
                              r_at_city = current_city s4,
                              r_reached_destination = (active_leg s4 = None)\<rparr>, s4))))"

section \<open>travel_gui.py: the routing engine\<close>

text \<open>
  \<open>heapq\<close> keeps a binary heap inside a list. The model keeps the entries only:
  \<open>heappop\<close> takes the least entry in the order of Python's tuples (the cost first, then
  the node name), and which entry is least does not depend on the layout of the heap.
\<close>

type_synonym heap = "(real \<times> string) list"

definition heappush :: "heap \<Rightarrow> real \<times> string \<Rightarrow> heap" where
  "heappush h x = h @ [x]"

definition heappop :: "heap \<Rightarrow> (real \<times> string) \<times> heap" where
  "heappop h = (Min (set h), remove1 (Min (set h)) h)"

type_synonym dstate = "(string \<rightharpoonup> real) \<times> (string \<rightharpoonup> string) \<times> heap"

definition improves :: "real \<Rightarrow> real option \<Rightarrow> bool" where
  \<comment> \<open>\<open>new_cost < dist.get(neigh, float("inf"))\<close>\<close>
  "improves new_cost old = (case old of None \<Rightarrow> True | Some d \<Rightarrow> new_cost < d)"

definition stale :: "real \<Rightarrow> real option \<Rightarrow> bool" where
  \<comment> \<open>\<open>cost > dist.get(node, float("inf"))\<close>\<close>
  "stale cost old = (case old of None \<Rightarrow> False | Some d \<Rightarrow> cost > d)"

fun relax :: "real \<Rightarrow> string \<Rightarrow> (string \<times> attrs) list \<Rightarrow> dstate \<Rightarrow> error + dstate" where
  \<comment> \<open>the \<open>for neigh, attrs in adjacency.get(node, [])\<close> loop\<close>
  "relax cost node [] st = Inr st"
| "relax cost node ((neigh, a) # rest) (distm, prev, h) =
     (case edge_weight a of
        Inl e \<Rightarrow> Inl e
      | Inr weight \<Rightarrow>
          (let new_cost = cost + weight in
           if improves new_cost (distm neigh)
           then relax cost node rest
                  (distm(neigh \<mapsto> new_cost), prev(neigh \<mapsto> node), heappush h (new_cost, neigh))
           else relax cost node rest (distm, prev, h)))"

partial_function (option) dijkstra_loop :: "adjacency \<Rightarrow> string \<Rightarrow> dstate \<Rightarrow> (error + dstate) option"
where
  "dijkstra_loop adj dest st =
     (case st of (distm, prev, h) \<Rightarrow>
        if h = [] then Some (Inr st)
        else (case heappop h of ((cost, node), h') \<Rightarrow>
          if node = dest then Some (Inr (distm, prev, h'))
          else if stale cost (distm node) then dijkstra_loop adj dest (distm, prev, h')
          else (case relax cost node (adj_get adj node) (distm, prev, h') of
                  Inl e \<Rightarrow> Some (Inl e)
                | Inr st' \<Rightarrow> dijkstra_loop adj dest st')))"

declare dijkstra_loop.simps [code]

fun add_base_distance :: "(string \<times> attrs) list \<Rightarrow> string \<Rightarrow> real \<Rightarrow> error + real" where
  \<comment> \<open>the inner \<open>for\<close> loop of the reconstruction: the first entry for \<open>cur\<close> counts\<close>
  "add_base_distance [] cur total_distance = Inr total_distance"
| "add_base_distance ((neigh, a) # rest) cur total_distance =
     (if neigh = cur then py_add total_distance (dict_get a ''approx_distance_km'' (VNum 0.0))
      else add_base_distance rest cur total_distance)"

partial_function (option) reconstruct ::
  "adjacency \<Rightarrow> (string \<rightharpoonup> string) \<Rightarrow> string \<Rightarrow> string \<Rightarrow> string list \<Rightarrow> real
     \<Rightarrow> (error + string list \<times> real) option"
where
  "reconstruct adj prev start cur path total_distance =
     (if cur = start then Some (Inr (path, total_distance))
      else (case prev cur of
          None \<Rightarrow> Some (Inl KeyError)
        | Some prev_node \<Rightarrow>
            (case add_base_distance (adj_get adj prev_node) cur total_distance of
               Inl e \<Rightarrow> Some (Inl e)
             | Inr total_distance' \<Rightarrow> reconstruct adj prev start prev_node (path @ [cur]) total_distance')))"

declare reconstruct.simps [code]

definition unset :: "string option \<Rightarrow> bool" where
  \<comment> \<open>\<open>not start\<close>: \<open>None\<close> or the empty string\<close>
  "unset x = (case x of None \<Rightarrow> True | Some s \<Rightarrow> s = [])"

definition shortest_path ::
  "adjacency \<Rightarrow> string option \<Rightarrow> string option \<Rightarrow> (error + string list \<times> real \<times> real) option"
where
  \<comment> \<open>\<open>None\<close> is a search that does not return\<close>
  "shortest_path adj start dest =
     (case (start, dest) of
        (Some s, Some d) \<Rightarrow>
          if unset start \<or> unset dest then Some (Inr ([], 0.0, 0.0))
          else if s = d then Some (Inr ([s], 0.0, 0.0))
          else (case dijkstra_loop adj d ([s \<mapsto> 0.0], Map.empty, [(0.0, s)]) of
              None \<Rightarrow> None
            | Some (Inl e) \<Rightarrow> Some (Inl e)
            | Some (Inr (distm, prev, h)) \<Rightarrow>
                (case distm d of
                   None \<Rightarrow> Some (Inr ([], 0.0, 0.0))
                 | Some wc \<Rightarrow>
                     (case reconstruct adj prev s d [] 0.0 of
                        None \<Rightarrow> None
                      | Some (Inl e) \<Rightarrow> Some (Inl e)
                      | Some (Inr (path, total_distance)) \<Rightarrow>
                          Some (Inr (rev (path @ [s]), total_distance, wc)))))
      | _ \<Rightarrow> Some (Inr ([], 0.0, 0.0)))"

subsection \<open>Paths of the adjacency view, in the spec's words\<close>

definition edge_of :: "adjacency \<Rightarrow> string \<Rightarrow> string \<Rightarrow> attrs option" where
  "edge_of adj u v = map_of (adj_get adj u) v"

fun valid_path :: "adjacency \<Rightarrow> string list \<Rightarrow> bool" where
  "valid_path adj [] = False"
| "valid_path adj [x] = True"
| "valid_path adj (x # y # r) = (edge_of adj x y \<noteq> None \<and> valid_path adj (y # r))"

definition path_from_to :: "adjacency \<Rightarrow> string \<Rightarrow> string \<Rightarrow> string list \<Rightarrow> bool" where
  "path_from_to adj s d p = (valid_path adj p \<and> hd p = s \<and> last p = d)"

definition physical_distance :: "attrs \<Rightarrow> real" where
  "physical_distance a =
     (case dict_get a ''approx_distance_km'' (VNum 0.0) of VNum b \<Rightarrow> b | _ \<Rightarrow> 0)"

definition weighted_cost :: "attrs \<Rightarrow> real" where
  \<comment> \<open>physical distance times difficulty factor\<close>
  "weighted_cost a =
     (case difficulty_for_edge a of Inr d \<Rightarrow> physical_distance a * d | Inl e \<Rightarrow> 0)"

fun path_sum :: "(attrs \<Rightarrow> real) \<Rightarrow> adjacency \<Rightarrow> string list \<Rightarrow> real" where
  "path_sum f adj (x # y # r) =
     (case edge_of adj x y of None \<Rightarrow> 0 | Some a \<Rightarrow> f a) + path_sum f adj (y # r)"
| "path_sum f adj p = 0"

definition edge_ok :: "attrs \<Rightarrow> bool" where
  \<comment> \<open>the distance is a number (or missing), the difficulty resolves to a number, and the
      weight is not negative\<close>
  "edge_ok a =
     (case dict_get a ''approx_distance_km'' (VNum 0.0) of
        VNum b \<Rightarrow> (case difficulty_for_edge a of Inr d \<Rightarrow> 0 \<le> b * d | Inl e \<Rightarrow> False)
      | _ \<Rightarrow> False)"

definition routes_ok :: "(string \<times> attrs) list \<Rightarrow> bool" where
  \<comment> \<open>every entry is a good edge, and two entries for one neighbour carry the same bag
      (the graph model stores one edge for each pair of nodes)\<close>
  "routes_ok l =
     list_all (\<lambda>(v, a). edge_ok a \<and> list_all (\<lambda>(v', a'). v' = v \<longrightarrow> a' = a) l) l"

definition adj_ok :: "adjacency \<Rightarrow> bool" where
  "adj_ok adj = list_all (\<lambda>(u, l). routes_ok (adj_get adj u)) adj"

section \<open>createGraph.py: the graph model\<close>

definition py_dict :: "('k \<times> 'v) list \<Rightarrow> ('k \<times> 'v) list" where
  \<comment> \<open>a dict display \<open>{k1: v1, ..., **attrs}\<close>: the items are stored from left to right\<close>
  "py_dict kvs = fold (\<lambda>(k, v). AList.update k v) kvs []"

definition dict_update :: "('k \<times> 'v) list \<Rightarrow> ('k \<times> 'v) list \<Rightarrow> ('k \<times> 'v) list" where
  \<comment> \<open>\<open>d.update(other)\<close>\<close>
  "dict_update d other = fold (\<lambda>(k, v). AList.update k v) other d"

definition sorted_pair :: "string \<Rightarrow> string \<Rightarrow> string \<times> string" where
  \<comment> \<open>\<open>tuple(sorted((a, b)))\<close>; the sort is stable\<close>
  "sorted_pair a b = (if b < a then (b, a) else (a, b))"

text \<open>
  The fields \<open>nodes\<close> and \<open>edges\<close> of \<open>Graph\<close> are \<open>g_nodes\<close> and \<open>g_edges\<close>; a
  \<open>**attrs\<close> parameter is the association list of the keyword arguments.
\<close>

record Graph =
  g_nodes :: "(string \<times> attrs) list"
  g_edges :: "((string \<times> string) \<times> attrs) list"

definition empty_graph :: Graph where
  "empty_graph = \<lparr>g_nodes = [], g_edges = []\<rparr>"

definition kwargs_clash :: "string list \<Rightarrow> attrs \<Rightarrow> bool" where
  \<comment> \<open>a keyword argument named like a positional parameter of the method: the call
      raises \<open>TypeError\<close> (multiple values for the argument)\<close>
  "kwargs_clash params a = list_ex (\<lambda>(k, v). k \<in> set params) a"

definition add_node :: "Graph \<Rightarrow> string \<Rightarrow> attrs \<Rightarrow> error + Graph" where
  "add_node g node_id a =
     (if kwargs_clash [''self'', ''node_id''] a then Inl TypeError
      else
        (let payload = py_dict ((''id'', VStr node_id) # a) in
         if dict_has (g_nodes g) node_id
         then Inr (g\<lparr>g_nodes :=
                      AList.map_entry node_id (\<lambda>old. dict_update old payload) (g_nodes g)\<rparr>)
         else Inr (g\<lparr>g_nodes := g_nodes g @ [(node_id, payload)]\<rparr>)))"

definition add_edge :: "Graph \<Rightarrow> string \<Rightarrow> string \<Rightarrow> attrs \<Rightarrow> error + Graph" where
  "add_edge g source target a =
     (if kwargs_clash [''self'', ''source'', ''target''] a then Inl TypeError
      else if \<not> dict_has (g_nodes g) source \<or> \<not> dict_has (g_nodes g) target
        then Inl MissingEndpoint
      else
        (let key = sorted_pair source target;
             edge_payload =
               py_dict ((''nodes'', VList [VStr (fst key), VStr (snd key)])
                        # (''undirected'', VBool True) # a)
         in if dict_has (g_edges g) key
            then Inr (g\<lparr>g_edges :=
                         AList.map_entry key (\<lambda>old. dict_update old edge_payload) (g_edges g)\<rparr>)
            else Inr (g\<lparr>g_edges := g_edges g @ [(key, edge_payload)]\<rparr>)))"

record document =
  doc_nodes :: "attrs list"
  doc_edges :: "attrs list"

definition sorted_values :: "('k::linorder \<times> 'v) list \<Rightarrow> 'v list" where
  \<comment> \<open>\<open>[d[k] for k in sorted(d)]\<close>\<close>
  "sorted_values d = List.map_filter (map_of d) (sort (map fst d))"

definition to_dict :: "Graph \<Rightarrow> document" where
  "to_dict g = \<lparr>doc_nodes = sorted_values (g_nodes g), doc_edges = sorted_values (g_edges g)\<rparr>"

fun py_len :: "pyval \<Rightarrow> error + nat" where
  "py_len (VList xs) = Inr (length xs)"
| "py_len (VStr s) = Inr (length s)"
| "py_len v = Inl TypeError"

fun unpack2 :: "pyval \<Rightarrow> error + pyval \<times> pyval" where
  \<comment> \<open>\<open>a, b = v\<close> for a value of length two\<close>
  "unpack2 (VList [x, y]) = Inr (x, y)"
| "unpack2 (VStr [c, d]) = Inr (VStr [c], VStr [d])"
| "unpack2 v = Inl TypeError"

definition edge_endpoints :: "attrs \<Rightarrow> error + pyval \<times> pyval" where
  "edge_endpoints e =
     (let by_fields =
        (if dict_has e ''source'' \<and> dict_has e ''target''
         then Inr (dict_get e ''source'' VNone, dict_get e ''target'' VNone)
         else Inl MalformedEdge)
      in if dict_has e ''nodes''
         then (case py_len (dict_get e ''nodes'' VNone) of
                 Inl err \<Rightarrow> Inl err
               | Inr n \<Rightarrow> if n = 2 then unpack2 (dict_get e ''nodes'' VNone) else by_fields)
         else by_fields)"

fun load_nodes :: "Graph \<Rightarrow> attrs list \<Rightarrow> error + Graph" where
  "load_nodes g [] = Inr g"
| "load_nodes g (node # rest) =
     (case map_of node ''id'' of
        None \<Rightarrow> Inl KeyError
      | Some (VStr node_id) \<Rightarrow>
          (case add_node g node_id (filter (\<lambda>(k, v). k \<noteq> ''id'') node) of
             Inl err \<Rightarrow> Inl err
           | Inr g' \<Rightarrow> load_nodes g' rest)
      | Some v \<Rightarrow> Inl Unmodelled)"

fun load_edges :: "Graph \<Rightarrow> attrs list \<Rightarrow> error + Graph" where
  "load_edges g [] = Inr g"
| "load_edges g (e # rest) =
     (case edge_endpoints e of
        Inl err \<Rightarrow> Inl err
      | Inr (VStr a, VStr b) \<Rightarrow>
          (case add_edge g a b
                  (filter (\<lambda>(k, v). k \<notin> {''nodes'', ''source'', ''target''}) e) of
             Inl err \<Rightarrow> Inl err
           | Inr g' \<Rightarrow> load_edges g' rest)
      | Inr v \<Rightarrow> Inl Unmodelled)"

definition from_dict :: "document \<Rightarrow> error + Graph" where
  "from_dict data =
     (case load_nodes empty_graph (doc_nodes data) of
        Inl err \<Rightarrow> Inl err
      | Inr g \<Rightarrow> load_edges g (doc_edges data))"

text \<open>A graph built from \<open>add_node\<close> and \<open>add_edge\<close> calls, stopping at the first error.\<close>

datatype graph_op = AddNode string attrs | AddEdge string string attrs

fun build :: "Graph \<Rightarrow> graph_op list \<Rightarrow> error + Graph" where
  "build g [] = Inr g"
| "build g (AddNode n a # ops) =
     (case add_node g n a of Inl err \<Rightarrow> Inl err | Inr g' \<Rightarrow> build g' ops)"
| "build g (AddEdge s t a # ops) =
     (case add_edge g s t a of Inl err \<Rightarrow> Inl err | Inr g' \<Rightarrow> build g' ops)"

definition same_bags :: "('k \<times> attrs) list \<Rightarrow> ('k \<times> attrs) list \<Rightarrow> bool" where
  \<comment> \<open>the same keys, and under each key the same attribute bag, the order of keys ignored\<close>
  "same_bags xs ys =
     (\<forall>k. rel_option (\<lambda>a b. map_of a = map_of b) (map_of xs k) (map_of ys k))"

fun plain_op :: "graph_op \<Rightarrow> bool" where
  \<comment> \<open>no attribute is named like a structural key of the document\<close>
  "plain_op (AddNode n a) = (''id'' \<notin> fst ` set a)"
| "plain_op (AddEdge s t a) = (''nodes'' \<notin> fst ` set a)"

section \<open>graph_editor.py: the editor's graph\<close>

text \<open>
  The fields \<open>nodes\<close> and \<open>edges\<close> of \<open>GraphData\<close> are \<open>gd_nodes\<close> and \<open>gd_edges\<close>.
\<close>

record GraphData =
  gd_nodes :: "(string \<times> attrs) list"
  gd_edges :: "attrs list"

fun py_contains :: "pyval \<Rightarrow> string \<Rightarrow> error + bool" where
  \<comment> \<open>\<open>x in v\<close> for a string \<open>x\<close>: membership in a list, substring of a string\<close>
  "py_contains (VList xs) x = Inr (VStr x \<in> set xs)"
| "py_contains (VStr s) x = Inr (sublist x s)"
| "py_contains v x = Inl TypeError"

fun keep_edges :: "string \<Rightarrow> attrs list \<Rightarrow> error + attrs list" where
  \<comment> \<open>\<open>[e for e in edges if node_id not in e.get("nodes", [])]\<close>\<close>
  "keep_edges x [] = Inr []"
| "keep_edges x (e # es) =
     (case py_contains (dict_get e ''nodes'' (VList [])) x of
        Inl err \<Rightarrow> Inl err
      | Inr c \<Rightarrow>
          (case keep_edges x es of
             Inl err \<Rightarrow> Inl err
           | Inr r \<Rightarrow> Inr (if c then r else e # r)))"

definition remove_node :: "GraphData \<Rightarrow> string \<Rightarrow> (error + unit) \<times> GraphData" where
  \<comment> \<open>the node is deleted before the edges are filtered\<close>
  "remove_node gd x =
     (let gd1 = gd\<lparr>gd_nodes := AList.delete x (gd_nodes gd)\<rparr> in
      case keep_edges x (gd_edges gd1) of
        Inl err \<Rightarrow> (Inl err, gd1)
      | Inr es \<Rightarrow> (Inr (), gd1\<lparr>gd_edges := es\<rparr>))"

fun the_str :: "pyval \<Rightarrow> string option" where
  "the_str (VStr s) = Some s"
| "the_str v = None"

fun nodes_match :: "pyval \<Rightarrow> string \<times> string \<Rightarrow> error + bool" where
  \<comment> \<open>\<open>tuple(sorted(v)) == key\<close>. A list of strings is sorted; a list of at most one
      value needs no comparison; a string is sorted by characters; a longer list with a
      value that is no string is outside the model.\<close>
  "nodes_match (VList xs) key =
     (if list_all (\<lambda>v. the_str v \<noteq> None) xs
      then Inr (sort (List.map_filter the_str xs) = [fst key, snd key])
      else if length xs \<le> 1 then Inr False else Inl Unmodelled)"
| "nodes_match (VStr s) key = Inr (map (\<lambda>c. [c]) (sort s) = [fst key, snd key])"
| "nodes_match v key = Inl TypeError"

fun find_edge_from :: "nat \<Rightarrow> attrs list \<Rightarrow> string \<times> string \<Rightarrow> error + nat option" where
  \<comment> \<open>the \<open>enumerate\<close> loop, from index \<open>idx\<close>\<close>
  "find_edge_from idx [] key = Inr None"
| "find_edge_from idx (e # es) key =
     (case nodes_match (dict_get e ''nodes'' (VList [])) key of
        Inl err \<Rightarrow> Inl err
      | Inr m \<Rightarrow> if m then Inr (Some idx) else find_edge_from (Suc idx) es key)"

definition find_edge_index :: "GraphData \<Rightarrow> string \<Rightarrow> string \<Rightarrow> error + nat option" where
  "find_edge_index gd a b = find_edge_from 0 (gd_edges gd) (sorted_pair a b)"

definition upsert_edge :: "GraphData \<Rightarrow> string \<Rightarrow> string \<Rightarrow> attrs \<Rightarrow> (error + unit) \<times> GraphData" where
  "upsert_edge gd a b new_attrs =
     (let key = sorted_pair a b;
          edge = py_dict ((''nodes'', VList [VStr (fst key), VStr (snd key)]) # new_attrs)
      in case find_edge_index gd a b of
           Inl err \<Rightarrow> (Inl err, gd)
         | Inr (Some existing_idx) \<Rightarrow>
             (Inr (), gd\<lparr>gd_edges := (gd_edges gd)[existing_idx := edge]\<rparr>)
         | Inr None \<Rightarrow> (Inr (), gd\<lparr>gd_edges := gd_edges gd @ [edge]\<rparr>))"

section \<open>Trips as sequences of operations\<close>

text \<open>
  The invariant of the active leg, the edges on which a trip stays inside it (a distance and
  a difficulty that are numbers and not negative), and runs of successful operations.
\<close>

definition leg_invariant :: "TravelSession \<Rightarrow> bool" where
  "leg_invariant s =
     (case active_leg s of
        None \<Rightarrow> True
      | Some leg \<Rightarrow> 0 \<le> traveled_km leg \<and> traveled_km leg \<le> distance_km leg)"

definition travel_edge_ok :: "attrs \<Rightarrow> bool" where
  "travel_edge_ok a =
     (case py_float (dict_get a ''approx_distance_km'' (VNum 0.0)) of
        Inr b \<Rightarrow> 0 \<le> b \<and> (case difficulty_for_edge a of Inr d \<Rightarrow> 0 \<le> d | Inl e \<Rightarrow> False)
      | Inl e \<Rightarrow> False)"

definition travel_ok :: "adjacency \<Rightarrow> bool" where
  "travel_ok adj = list_all (\<lambda>(u, l). list_all (\<lambda>(v, a). travel_edge_ok a) (adj_get adj u)) adj"

definition session_ok :: "TravelSession \<Rightarrow> bool" where
  "session_ok s =
     (travel_ok (adjacency s) \<and>
      (case active_leg s of None \<Rightarrow> True | Some leg \<Rightarrow> travel_edge_ok (leg_attrs leg)))"

datatype trip_op = ResetTrip string string | StartLeg string | TravelDay string real

fun apply_op :: "TravelSession \<Rightarrow> trip_op \<Rightarrow> TravelSession option" where
  "apply_op s (ResetTrip a b) =
     (case reset_trip s a b of (Inr r, s') \<Rightarrow> Some s' | (Inl e, s') \<Rightarrow> None)"
| "apply_op s (StartLeg d) =
     (case start_leg s d of (Inr r, s') \<Rightarrow> Some s' | (Inl e, s') \<Rightarrow> None)"
| "apply_op s (TravelDay m h) =
     (case travel_day s m h of (Inr r, s') \<Rightarrow> Some s' | (Inl e, s') \<Rightarrow> None)"

fun run_ops :: "TravelSession \<Rightarrow> trip_op list \<Rightarrow> TravelSession option" where
  "run_ops s [] = Some s"
| "run_ops s (x # xs) = (case apply_op s x of None \<Rightarrow> None | Some s' \<Rightarrow> run_ops s' xs)"

definition demo_edge :: attrs where
  "demo_edge = [(''approx_distance_km'', VNum 50), (''route_type'', VStr ''road'')]"

definition demo_adjacency :: adjacency where
  "demo_adjacency = [(''A'', [(''B'', demo_edge)]), (''B'', [(''A'', demo_edge)])]"

definition demo_at_A :: TravelSession where
  "demo_at_A =
     \<lparr>nodes = [(''A'', [(''id'', VStr ''A'')]), (''B'', [(''id'', VStr ''B'')])],
      adjacency = demo_adjacency, start_city = Some ''A'', destination_city = Some ''B'',
      current_city = Some ''A'', active_leg = None, day = 0, total_traveled_km = 0,
      log_lines = [TripBegins ''A'' ''B'']\<rparr>"

definition demo_leg :: ActiveLeg where
  "demo_leg = \<lparr>origin = Some ''A'', destination = ''B'', leg_attrs = demo_edge,
                distance_km = 50, traveled_km = 0\<rparr>"

definition demo_traveling :: TravelSession where
  "demo_traveling = demo_at_A\<lparr>active_leg := Some demo_leg\<rparr>"

section \<open>Notions for the properties of the graph models\<close>

definition edge_items :: "string \<times> string \<Rightarrow> attrs \<Rightarrow> attrs" where
  \<comment> \<open>the items of the payload that \<open>add_edge\<close> stores for a canonical pair\<close>
  "edge_items key a =
     (''nodes'', VList [VStr (fst key), VStr (snd key)]) # (''undirected'', VBool True) # a"

definition merged :: "attrs option \<Rightarrow> attrs \<Rightarrow> string \<Rightarrow> pyval option" where
  \<comment> \<open>the spec's merge: a key of the new items takes its last value there, any other key
      keeps the value of the old bag\<close>
  "merged old items k =
     (case map_of (rev items) k of
        Some v \<Rightarrow> Some v
      | None \<Rightarrow> (case old of None \<Rightarrow> None | Some bag \<Rightarrow> map_of bag k))"

definition demo_editor :: GraphData where
  "demo_editor =
     \<lparr>gd_nodes = [(''A'', []), (''B'', [])],
      gd_edges = [[(''nodes'', VList [VStr ''A'', VStr ''B'']), (''route_type'', VStr ''road'')]]\<rparr>"

definition demo_graph :: Graph where
  "demo_graph =
     \<lparr>g_nodes = [(''A'', [(''id'', VStr ''A'')]), (''B'', [(''id'', VStr ''B'')])],
      g_edges = [((''A'', ''B''),
                  [(''nodes'', VList [VStr ''A'', VStr ''B'']), (''undirected'', VBool True),
                   (''route_type'', VStr ''road'')])]\<rparr>"

definition edges_typed :: "GraphData \<Rightarrow> bool" where
  \<comment> \<open>every edge holds a list under \<open>"nodes"\<close>, or has no such key\<close>
  "edges_typed gd =
     list_all (\<lambda>e. case dict_get e ''nodes'' (VList []) of VList xs \<Rightarrow> True | _ \<Rightarrow> False)
       (gd_edges gd)"

definition references :: "attrs \<Rightarrow> string \<Rightarrow> bool" where
  \<comment> \<open>the edge names the node among its endpoints\<close>
  "references e x = (py_contains (dict_get e ''nodes'' (VList [])) x = Inr True)"

section \<open>Notions for the round trip\<close>

definition node_bag_ok :: "string \<Rightarrow> attrs \<Rightarrow> bool" where
  "node_bag_ok k bag =
     (distinct (map fst bag) \<and> map_of bag ''id'' = Some (VStr k) \<and>
      \<not> kwargs_clash [''self'', ''node_id''] bag)"

definition edge_bag_ok :: "Graph \<Rightarrow> string \<times> string \<Rightarrow> attrs \<Rightarrow> bool" where
  "edge_bag_ok g key bag =
     (distinct (map fst bag) \<and> sorted_pair (fst key) (snd key) = key \<and>
      dict_has (g_nodes g) (fst key) \<and> dict_has (g_nodes g) (snd key) \<and>
      map_of bag ''nodes'' = Some (VList [VStr (fst key), VStr (snd key)]) \<and>
      dict_has bag ''undirected'' \<and>
      \<not> kwargs_clash [''self'', ''source'', ''target''] bag)"

definition graph_inv :: "Graph \<Rightarrow> bool" where
  \<comment> \<open>what \<open>add_node\<close> and \<open>add_edge\<close> keep when no attribute is named \<open>id\<close> or \<open>nodes\<close>\<close>
  "graph_inv g =
     (distinct (map fst (g_nodes g)) \<and> distinct (map fst (g_edges g)) \<and>
      (\<forall>(k, bag) \<in> set (g_nodes g). node_bag_ok k bag) \<and>
      (\<forall>(key, bag) \<in> set (g_edges g). edge_bag_ok g key bag))"

definition cx_ops :: "graph_op list" where
  \<comment> \<open>\<open>add_node("A"); add_node("B"); add_edge("A", "B", nodes=["A"])\<close>\<close>
  "cx_ops = [AddNode ''A'' [], AddNode ''B'' [], AddEdge ''A'' ''B'' [(''nodes'', VList [VStr ''A''])]]"

definition cx_graph :: Graph where
  "cx_graph =
     \<lparr>g_nodes = [(''A'', [(''id'', VStr ''A'')]), (''B'', [(''id'', VStr ''B'')])],
      g_edges = [((''A'', ''B''), [(''nodes'', VList [VStr ''A'']), (''undirected'', VBool True)])]\<rparr>"

definition trip_ops :: "graph_op list" where
  "trip_ops =
     [AddNode ''B'' [(''kind'', VStr ''port'')], AddNode ''A'' [],
      AddEdge ''B'' ''A'' [(''route_type'', VStr ''road'')],
      AddEdge ''A'' ''B'' [(''approx_distance_km'', VNum 5)]]"

definition trip_graph :: Graph where
  "trip_graph =
     \<lparr>g_nodes = [(''B'', [(''id'', VStr ''B''), (''kind'', VStr ''port'')]),
                 (''A'', [(''id'', VStr ''A'')])],
      g_edges = [((''A'', ''B''),
                  [(''nodes'', VList [VStr ''A'', VStr ''B'']), (''undirected'', VBool True),
                   (''route_type'', VStr ''road''), (''approx_distance_km'', VNum 5)])]\<rparr>"

section \<open>Invariants of the search\<close>

text \<open>
  A node is settled when its current distance has left the heap. The tree of \<open>prev\<close>
  pointers leads from every node with a distance back to the start.
\<close>

definition settled :: "(string \<rightharpoonup> real) \<Rightarrow> heap \<Rightarrow> string set" where
  "settled distm h = {x. \<exists>d. distm x = Some d \<and> (d, x) \<notin> set h}"

inductive prev_path :: "(string \<rightharpoonup> string) \<Rightarrow> string \<Rightarrow> string \<Rightarrow> string list \<Rightarrow> bool"
  for prev :: "string \<rightharpoonup> string" and s :: string
where
  start: "prev_path prev s s [s]"
| step: "prev_path prev s u p \<Longrightarrow> prev v = Some u \<Longrightarrow> v \<noteq> s \<Longrightarrow> prev_path prev s v (p @ [v])"

definition tree_ok ::
  "adjacency \<Rightarrow> string \<Rightarrow> (string \<rightharpoonup> real) \<Rightarrow> (string \<rightharpoonup> string) \<Rightarrow> string set \<Rightarrow> bool"
where
  "tree_ok adj s distm prev S =
     (distm s = Some 0 \<and>
      (\<forall>v d. distm v = Some d \<longrightarrow> 0 \<le> d) \<and>
      (\<forall>v u. prev v = Some u \<longrightarrow> v \<noteq> s \<and> distm v \<noteq> None) \<and>
      (\<forall>v d. distm v = Some d \<and> v \<noteq> s \<longrightarrow>
         (\<exists>u a du. prev v = Some u \<and> u \<in> S \<and> (v, a) \<in> set (adj_get adj u) \<and>
                   distm u = Some du \<and> d = du + weighted_cost a)) \<and>
      (\<forall>v d. distm v = Some d \<longrightarrow> (\<exists>p. prev_path prev s v p)))"

definition heap_ok :: "(string \<rightharpoonup> real) \<Rightarrow> heap \<Rightarrow> bool" where
  "heap_ok distm h =
     (distinct h \<and> (\<forall>c v. (c, v) \<in> set h \<longrightarrow> (\<exists>d. distm v = Some d \<and> d \<le> c)))"

definition relaxed ::
  "(string \<rightharpoonup> real) \<Rightarrow> string \<Rightarrow> (string \<times> attrs) list \<Rightarrow> bool"
where
  "relaxed distm x es =
     (\<forall>y a. (y, a) \<in> set es \<longrightarrow>
        (\<exists>dx dy. distm x = Some dx \<and> distm y = Some dy \<and> dy \<le> dx + weighted_cost a))"

definition dinv :: "adjacency \<Rightarrow> string \<Rightarrow> dstate \<Rightarrow> bool" where
  "dinv adj s st =
     (case st of (distm, prev, h) \<Rightarrow>
        tree_ok adj s distm prev (settled distm h) \<and> heap_ok distm h \<and>
        (\<forall>x \<in> settled distm h. \<forall>c v. (c, v) \<in> set h \<longrightarrow> (\<exists>d. distm x = Some d \<and> d \<le> c)) \<and>
        (\<forall>x \<in> settled distm h. relaxed distm x (adj_get adj x)))"

definition rinv ::
  "adjacency \<Rightarrow> string \<Rightarrow> real \<Rightarrow> string \<Rightarrow> (string \<times> attrs) list \<Rightarrow> dstate \<Rightarrow> bool"
where
  "rinv adj s c u seen st =
     (case st of (distm, prev, h) \<Rightarrow>
        tree_ok adj s distm prev (settled distm h) \<and> heap_ok distm h \<and>
        distm u = Some c \<and> u \<in> settled distm h \<and>
        (\<forall>x \<in> settled distm h. \<exists>d. distm x = Some d \<and> d \<le> c) \<and>
        (\<forall>c' v. (c', v) \<in> set h \<longrightarrow> c \<le> c') \<and>
        (\<forall>x \<in> settled distm h - {u}. relaxed distm x (adj_get adj x)) \<and>
        relaxed distm u seen)"

definition nodes_of :: "adjacency \<Rightarrow> string set" where
  \<comment> \<open>the nodes named as a neighbour somewhere in the adjacency view\<close>
  "nodes_of adj = (\<Union>(u, l) \<in> set adj. fst ` set l)"

definition reachable :: "adjacency \<Rightarrow> string \<Rightarrow> string \<Rightarrow> bool" where
  "reachable adj s d = (\<exists>p. path_from_to adj s d p)"

definition line_edge :: attrs where
  "line_edge = [(''approx_distance_km'', VNum 10), (''route_type'', VStr ''road'')]"

definition line_edge_bc :: attrs where
  "line_edge_bc = [(''approx_distance_km'', VNum 10), (''route_type'', VStr ''road''),
                   (''difficulty_factor'', VNum 0.5)]"

definition line_graph :: adjacency where
  \<comment> \<open>the line A - B - C - D with distances 10, 10, 10 and difficulty 0.5 on B - C\<close>
  "line_graph =
     [(''A'', [(''B'', line_edge)]),
      (''B'', [(''A'', line_edge), (''C'', line_edge_bc)]),
      (''C'', [(''B'', line_edge_bc), (''D'', line_edge)]),
      (''D'', [(''C'', line_edge)])]"

section \<open>Properties of the trip simulator\<close>

lemma route_table_spec:
  "(case map_of ROUTE_DIFFICULTY t of None \<Rightarrow> 1.0 | Some v \<Rightarrow> v) = spec_route_table t"
  by (simp add: ROUTE_DIFFICULTY_def spec_route_table_def)

lemma difficulty_spec:
  assumes "num_attr a ''difficulty_factor'' factor"
    and "num_attr a ''difficulty_modifier'' modifier"
    and "str_attr a ''route_type'' rt"
  shows "difficulty_for_edge a = Inr (spec_difficulty factor modifier rt)"
  using assms
  by (cases factor; cases modifier; cases rt)
     (simp_all add: difficulty_for_edge_def num_attr_def str_attr_def dict_has_def dict_get_def
        spec_difficulty_def route_table_spec)

lemma travel_day_covered:
  assumes "active_leg s = Some leg" and "0 < hours"
    and "difficulty_for_edge (leg_attrs leg) = Inr d"
  shows "\<exists>r s'. travel_day s mode hours = (Inr r, s') \<and>
           r_traveled_km r = min (speed_for_mode mode * hours * d) (remaining_km leg)"
  using assms by (simp add: travel_day_def Let_def)

text \<open>
  Claim C8. The difficulty of an edge is its \<open>difficulty_factor\<close> when the bag has one,
  else its \<open>difficulty_modifier\<close> when it has one, else the table value of its route type
  (road 1.0, trail 0.85, mountain_pass 0.7, shore 1.0, sea 1.0), and 1.0 for an unknown or
  missing route type. The edge weight of the routing engine and the distance covered by
  \<open>travel_day\<close> both use this value.
\<close>

theorem difficulty_resolution:
  assumes "num_attr a ''difficulty_factor'' factor"
    and "num_attr a ''difficulty_modifier'' modifier"
    and "str_attr a ''route_type'' rt"
  shows "difficulty_for_edge a = Inr (spec_difficulty factor modifier rt) \<and>
         edge_weight a =
           py_mul (dict_get a ''approx_distance_km'' (VNum 0)) (spec_difficulty factor modifier rt) \<and>
         (\<forall>s leg mode hours. active_leg s = Some leg \<and> leg_attrs leg = a \<and> 0 < hours \<longrightarrow>
            (\<exists>r s'. travel_day s mode hours = (Inr r, s') \<and>
               r_traveled_km r =
                 min (speed_for_mode mode * hours * spec_difficulty factor modifier rt)
                     (remaining_km leg)))"
proof -
  have d: "difficulty_for_edge a = Inr (spec_difficulty factor modifier rt)"
    using assms by (rule difficulty_spec)
  have w: "edge_weight a =
      py_mul (dict_get a ''approx_distance_km'' (VNum 0)) (spec_difficulty factor modifier rt)"
    by (simp add: edge_weight_def d)
  have t: "\<exists>r s'. travel_day s mode hours = (Inr r, s') \<and>
               r_traveled_km r =
                 min (speed_for_mode mode * hours * spec_difficulty factor modifier rt)
                     (remaining_km leg)"
    if "active_leg s = Some leg" "leg_attrs leg = a" "0 < hours" for s leg mode hours
    using travel_day_covered[of s leg hours "spec_difficulty factor modifier rt" mode] that d
    by simp
  show ?thesis using d w t by blast
qed

theorem difficulty_resolution_witness:
  "difficulty_for_edge [(''route_type'', VStr ''trail''), (''difficulty_modifier'', VNum 0.5)] = Inr 0.5
   \<and> difficulty_for_edge [(''route_type'', VStr ''trail'')] = Inr 0.85
   \<and> edge_weight demo_edge = Inr 50
   \<and> (\<exists>r s'. travel_day demo_traveling ''horse'' 2 = (Inr r, s') \<and> r_traveled_km r = 14)"
proof -
  have 1: "difficulty_for_edge [(''route_type'', VStr ''trail''), (''difficulty_modifier'', VNum 0.5)]
             = Inr 0.5"
    using difficulty_resolution[of "[(''route_type'', VStr ''trail''), (''difficulty_modifier'', VNum 0.5)]"
          None "Some 0.5" "Some ''trail''"]
    by (simp add: num_attr_def str_attr_def spec_difficulty_def)
  have 2: "difficulty_for_edge [(''route_type'', VStr ''trail'')] = Inr 0.85"
    using difficulty_resolution[of "[(''route_type'', VStr ''trail'')]" None None "Some ''trail''"]
    by (simp add: num_attr_def str_attr_def spec_difficulty_def spec_route_table_def)
  have h: "num_attr demo_edge ''difficulty_factor'' None"
    "num_attr demo_edge ''difficulty_modifier'' None"
    "str_attr demo_edge ''route_type'' (Some ''road'')"
    by (simp_all add: num_attr_def str_attr_def demo_edge_def)
  have sd: "spec_difficulty None None (Some ''road'') = 1"
    by (simp add: spec_difficulty_def spec_route_table_def)
  note t = difficulty_resolution[OF h, unfolded sd]
  have 3: "edge_weight demo_edge = Inr 50"
    using t by (simp add: demo_edge_def dict_get_def)
  have "active_leg demo_traveling = Some demo_leg \<and> leg_attrs demo_leg = demo_edge \<and> (0::real) < 2"
    by (simp add: demo_traveling_def demo_leg_def)
  with t obtain r s' where
    "travel_day demo_traveling ''horse'' 2 = (Inr r, s')"
    "r_traveled_km r = min (speed_for_mode ''horse'' * 2 * 1) (remaining_km demo_leg)"
    by blast
  moreover have "min (speed_for_mode ''horse'' * 2 * 1) (remaining_km demo_leg) = 14"
    by (simp add: speed_for_mode_def SPEEDS_KMH_def remaining_km_def demo_leg_def)
  ultimately have 4: "\<exists>r s'. travel_day demo_traveling ''horse'' 2 = (Inr r, s') \<and> r_traveled_km r = 14"
    by auto
  show ?thesis using 1 2 3 4 by blast
qed

lemma route_options_fold:
  "fold (\<lambda>(neighbor, a) m. m(neighbor \<mapsto> a)) routes m0 = m0 ++ map_of (rev routes)"
  by (induction routes arbitrary: m0) (auto simp: map_add_def fun_eq_iff split: option.splits)

lemma route_options_eq: "route_options routes = map_of (rev routes)"
  by (simp add: route_options_def route_options_fold)

lemma route_options_None: "(route_options routes d = None) = (d \<notin> fst ` set routes)"
  by (simp add: route_options_eq map_of_eq_None_iff)

lemma route_options_Some: "route_options routes d = Some a \<Longrightarrow> (d, a) \<in> set routes"
  by (auto simp: route_options_eq dest: map_of_SomeD)

text \<open>
  Claim C7. With a current location set, \<open>start_leg\<close> fails with \<open>AlreadyTraveling\<close> exactly
  when a leg is active; with no leg active it fails with \<open>SameLocation\<close> when the destination
  is the current location, with \<open>NoSuchRoute\<close> when the destination is no neighbour of the
  current location, and otherwise it succeeds: the new leg carries the attribute bag of the
  edge and its distance, nothing travelled yet.
\<close>

theorem start_leg_outcomes:
  assumes "current_city s = Some c" and "c \<noteq> []"
  shows "(fst (start_leg s d) = Inl AlreadyTraveling) = (active_leg s \<noteq> None) \<and>
         (active_leg s = None \<and> d = c \<longrightarrow> start_leg s d = (Inl SameLocation, s)) \<and>
         (active_leg s = None \<and> d \<noteq> c \<and> d \<notin> fst ` set (adj_get (adjacency s) c) \<longrightarrow>
            start_leg s d = (Inl NoSuchRoute, s)) \<and>
         (active_leg s = None \<and> d \<noteq> c \<and> d \<in> fst ` set (adj_get (adjacency s) c) \<longrightarrow>
            (\<exists>a. route_options (adj_get (adjacency s) c) d = Some a \<and>
                 (d, a) \<in> set (adj_get (adjacency s) c) \<and>
                 (\<forall>km. py_float (dict_get a ''approx_distance_km'' (VNum 0)) = Inr km \<longrightarrow>
                    start_leg s d =
                      (Inr \<lparr>origin = Some c, destination = d, leg_attrs = a,
                            distance_km = km, traveled_km = 0\<rparr>,
                       s\<lparr>active_leg := Some \<lparr>origin = Some c, destination = d, leg_attrs = a,
                                              distance_km = km, traveled_km = 0\<rparr>,
                         log_lines := log_lines s @
                           [Departed (Some c) d km (dict_get a ''route_type'' (VStr ''route''))]\<rparr>))))"
proof -
  have routes: "available_routes s = adj_get (adjacency s) c"
    using assms by (simp add: available_routes_def)
  have nf: "py_float v \<noteq> Inl AlreadyTraveling" for v
    by (cases v) simp_all
  have p1: "(fst (start_leg s d) = Inl AlreadyTraveling) = (active_leg s \<noteq> None)"
  proof (cases "active_leg s")
    case None
    then show ?thesis using nf
      by (auto simp: start_leg_def Let_def split: option.splits sum.splits)
  next
    case (Some leg)
    then show ?thesis by (simp add: start_leg_def)
  qed
  have p2: "start_leg s d = (Inl SameLocation, s)" if "active_leg s = None" "d = c"
    using that assms by (simp add: start_leg_def)
  have p3: "start_leg s d = (Inl NoSuchRoute, s)"
    if "active_leg s = None" "d \<noteq> c" "d \<notin> fst ` set (adj_get (adjacency s) c)"
    using that assms routes by (simp add: start_leg_def route_options_None[symmetric])
  have p4: "\<exists>a. route_options (adj_get (adjacency s) c) d = Some a \<and>
                 (d, a) \<in> set (adj_get (adjacency s) c) \<and>
                 (\<forall>km. py_float (dict_get a ''approx_distance_km'' (VNum 0)) = Inr km \<longrightarrow>
                    start_leg s d =
                      (Inr \<lparr>origin = Some c, destination = d, leg_attrs = a,
                            distance_km = km, traveled_km = 0\<rparr>,
                       s\<lparr>active_leg := Some \<lparr>origin = Some c, destination = d, leg_attrs = a,
                                              distance_km = km, traveled_km = 0\<rparr>,
                         log_lines := log_lines s @
                           [Departed (Some c) d km (dict_get a ''route_type'' (VStr ''route''))]\<rparr>))"
    if "active_leg s = None" "d \<noteq> c" "d \<in> fst ` set (adj_get (adjacency s) c)"
  proof -
    from that(3) obtain a where a: "route_options (adj_get (adjacency s) c) d = Some a"
      using route_options_None[of "adj_get (adjacency s) c" d] by auto
    have "(d, a) \<in> set (adj_get (adjacency s) c)" using a by (rule route_options_Some)
    moreover have "start_leg s d =
                      (Inr \<lparr>origin = Some c, destination = d, leg_attrs = a,
                            distance_km = km, traveled_km = 0\<rparr>,
                       s\<lparr>active_leg := Some \<lparr>origin = Some c, destination = d, leg_attrs = a,
                                              distance_km = km, traveled_km = 0\<rparr>,
                         log_lines := log_lines s @
                           [Departed (Some c) d km (dict_get a ''route_type'' (VStr ''route''))]\<rparr>)"
      if "py_float (dict_get a ''approx_distance_km'' (VNum 0)) = Inr km" for km
      using that \<open>active_leg s = None\<close> \<open>d \<noteq> c\<close> assms routes a
      by (simp add: start_leg_def Let_def)
    ultimately show ?thesis using a by blast
  qed
  show ?thesis using p1 p2 p3 p4 by blast
qed

text \<open>
  Claim C10. When \<open>reset_trip\<close>, \<open>start_leg\<close> or \<open>travel_day\<close> fails with one of its typed
  errors, the session is the one before the call.
\<close>

theorem failure_atomic:
  "(fst (reset_trip s a b) = Inl UnknownNode \<longrightarrow> snd (reset_trip s a b) = s) \<and>
   (fst (start_leg s d) \<in> {Inl AlreadyTraveling, Inl SameLocation, Inl NoSuchRoute} \<longrightarrow>
      snd (start_leg s d) = s) \<and>
   (fst (travel_day s mode hours) \<in> {Inl NoActiveLeg, Inl NonPositiveHours} \<longrightarrow>
      snd (travel_day s mode hours) = s)"
proof -
  have r: "fst (reset_trip s a b) = Inl UnknownNode \<longrightarrow> snd (reset_trip s a b) = s"
    by (simp add: reset_trip_def)
  have l: "fst (start_leg s d) \<in> {Inl AlreadyTraveling, Inl SameLocation, Inl NoSuchRoute} \<longrightarrow>
      snd (start_leg s d) = s"
    by (simp add: start_leg_def Let_def split: option.splits sum.splits)
  have t: "fst (travel_day s mode hours) \<in> {Inl NoActiveLeg, Inl NonPositiveHours} \<longrightarrow>
      snd (travel_day s mode hours) = s"
  proof (cases "active_leg s")
    case None
    then show ?thesis by (simp add: travel_day_def)
  next
    case (Some leg)
    show ?thesis
    proof (cases "hours \<le> 0")
      case True
      then show ?thesis using Some by (simp add: travel_day_def)
    next
      case False
      have "difficulty_for_edge x \<noteq> Inl NoActiveLeg \<and>
            difficulty_for_edge x \<noteq> Inl NonPositiveHours" for x
        by (auto simp: difficulty_for_edge_def elim!: py_float.elims route_difficulty_get.elims)
      then show ?thesis using Some False
        by (auto simp: travel_day_def Let_def split: sum.splits)
    qed
  qed
  show ?thesis using r l t by blast
qed

text \<open>
  Claim C2. With a leg active and positive hours, \<open>travel_day\<close> covers the minimum of
  speed times hours times difficulty and the remaining distance of the leg, so the travelled
  distance never passes the larger of its old value and the total distance, and a leg whose
  travelled distance is within its total distance stays within it; when the travelled
  distance is close to the total distance or beyond it, the current location becomes the
  destination of the leg and the leg is cleared. The witness is the leg of 50 km travelled
  on foot for 100 hours.
\<close>

theorem travel_day_clamp:
  assumes "active_leg s = Some leg" and "0 < hours"
    and "difficulty_for_edge (leg_attrs leg) = Inr d"
  shows "\<exists>r s'. travel_day s mode hours = (Inr r, s') \<and>
           r_traveled_km r = min (speed_for_mode mode * hours * d) (remaining_km leg) \<and>
           traveled_km leg + r_traveled_km r \<le> max (traveled_km leg) (distance_km leg) \<and>
           (traveled_km leg \<le> distance_km leg \<longrightarrow>
              traveled_km leg + r_traveled_km r \<le> distance_km leg) \<and>
           (if isclose (traveled_km leg + r_traveled_km r) (distance_km leg)
               \<or> distance_km leg \<le> traveled_km leg + r_traveled_km r
            then current_city s' = Some (destination leg) \<and> active_leg s' = None \<and>
                 r_reached_destination r \<and> r_at_city r = Some (destination leg)
            else current_city s' = current_city s \<and>
                 active_leg s' = Some (leg\<lparr>traveled_km := traveled_km leg + r_traveled_km r\<rparr>) \<and>
                 \<not> r_reached_destination r)"
  using assms by (auto simp: travel_day_def Let_def remaining_km_def)


theorem start_leg_outcomes_witness:
  "fst (start_leg demo_traveling ''B'') = Inl AlreadyTraveling \<and>
   start_leg demo_at_A ''A'' = (Inl SameLocation, demo_at_A) \<and>
   start_leg demo_at_A ''C'' = (Inl NoSuchRoute, demo_at_A) \<and>
   fst (start_leg demo_at_A ''B'') = Inr demo_leg"
proof -
  have c: "current_city demo_at_A = Some ''A''" "current_city demo_traveling = Some ''A''"
    by (simp_all add: demo_at_A_def demo_traveling_def)
  have n: "''A'' \<noteq> []" by simp
  have adj: "adj_get (adjacency demo_at_A) ''A'' = [(''B'', demo_edge)]"
    by (simp add: demo_at_A_def demo_adjacency_def adj_get_def)
  have leg: "active_leg demo_at_A = None" "active_leg demo_traveling \<noteq> None"
    by (simp_all add: demo_at_A_def demo_traveling_def)
  have ro: "route_options [(''B'', demo_edge)] ''B'' = Some demo_edge"
    by (simp add: route_options_def)
  have km: "py_float (dict_get demo_edge ''approx_distance_km'' (VNum 0)) = Inr 50"
    by (simp add: demo_edge_def dict_get_def)
  from start_leg_outcomes[OF c(2) n, of "''B''"] leg(2)
  have 1: "fst (start_leg demo_traveling ''B'') = Inl AlreadyTraveling" by blast
  from start_leg_outcomes[OF c(1) n, of "''A''"] leg(1)
  have 2: "start_leg demo_at_A ''A'' = (Inl SameLocation, demo_at_A)" by blast
  from start_leg_outcomes[OF c(1) n, of "''C''"] leg(1) adj
  have 3: "start_leg demo_at_A ''C'' = (Inl NoSuchRoute, demo_at_A)" by simp
  from start_leg_outcomes[OF c(1) n, of "''B''"] leg(1) adj ro km
  have 4: "fst (start_leg demo_at_A ''B'') = Inr demo_leg" by (simp add: demo_leg_def)
  show ?thesis using 1 2 3 4 by blast
qed

theorem failure_atomic_witness:
  "fst (reset_trip demo_at_A ''A'' ''Z'') = Inl UnknownNode \<and>
   snd (reset_trip demo_at_A ''A'' ''Z'') = demo_at_A \<and>
   fst (start_leg demo_traveling ''B'') = Inl AlreadyTraveling \<and>
   snd (start_leg demo_traveling ''B'') = demo_traveling \<and>
   fst (travel_day demo_traveling ''foot'' 0) = Inl NonPositiveHours \<and>
   snd (travel_day demo_traveling ''foot'' 0) = demo_traveling"
proof -
  have 1: "fst (reset_trip demo_at_A ''A'' ''Z'') = Inl UnknownNode"
    by (simp add: reset_trip_def demo_at_A_def dict_has_def)
  have 2: "fst (start_leg demo_traveling ''B'') = Inl AlreadyTraveling"
    by (simp add: start_leg_def demo_traveling_def)
  have 3: "fst (travel_day demo_traveling ''foot'' 0) = Inl NonPositiveHours"
    by (simp add: travel_day_def demo_traveling_def)
  show ?thesis
    using 1 2 3
      failure_atomic[where s = demo_at_A and a = "''A''" and b = "''Z''"]
      failure_atomic[where s = demo_traveling and d = "''B''" and mode = "''foot''" and hours = 0]
    by simp
qed

theorem travel_day_clamp_witness:
  "\<exists>r s'. travel_day demo_traveling ''foot'' 100 = (Inr r, s') \<and>
     speed_for_mode ''foot'' = 4.5 \<and> r_traveled_km r = 50 \<and>
     current_city s' = Some ''B'' \<and> active_leg s' = None \<and> r_reached_destination r"
proof -
  have a: "active_leg demo_traveling = Some demo_leg" by (simp add: demo_traveling_def)
  have h: "(0::real) < 100" by simp
  have d: "difficulty_for_edge (leg_attrs demo_leg) = Inr 1"
    by (simp add: demo_leg_def demo_edge_def difficulty_for_edge_def dict_has_def dict_get_def
          ROUTE_DIFFICULTY_def)
  have sp: "speed_for_mode ''foot'' = 4.5" by (simp add: speed_for_mode_def SPEEDS_KMH_def)
  have m: "min (speed_for_mode ''foot'' * 100 * 1) (remaining_km demo_leg) = 50"
    by (simp add: sp remaining_km_def demo_leg_def)
  from travel_day_clamp[OF a h d, of "''foot''"] obtain r s' where
    r: "travel_day demo_traveling ''foot'' 100 = (Inr r, s')"
       "r_traveled_km r = min (speed_for_mode ''foot'' * 100 * 1) (remaining_km demo_leg)"
       "(if isclose (traveled_km demo_leg + r_traveled_km r) (distance_km demo_leg)
               \<or> distance_km demo_leg \<le> traveled_km demo_leg + r_traveled_km r
            then current_city s' = Some (destination demo_leg) \<and> active_leg s' = None \<and>
                 r_reached_destination r \<and> r_at_city r = Some (destination demo_leg)
            else current_city s' = current_city demo_traveling \<and>
                 active_leg s' = Some (demo_leg\<lparr>traveled_km := traveled_km demo_leg + r_traveled_km r\<rparr>) \<and>
                 \<not> r_reached_destination r)"
    by blast
  have k: "r_traveled_km r = 50" using r(2) m by simp
  have "current_city s' = Some ''B'' \<and> active_leg s' = None \<and> r_reached_destination r"
    using r(3) k by (simp add: demo_leg_def)
  then show ?thesis using r(1) k sp by blast
qed

lemma speed_positive: "0 < speed_for_mode mode"
  by (simp add: speed_for_mode_def SPEEDS_KMH_def)

lemma travel_ok_edge:
  assumes "travel_ok adj" and "(v, a) \<in> set (adj_get adj u)"
  shows "travel_edge_ok a"
proof -
  from assms(2) obtain l where l: "map_of adj u = Some l" "(v, a) \<in> set l"
    by (cases "map_of adj u") (auto simp: adj_get_def)
  then have "(u, l) \<in> set adj" by (auto dest: map_of_SomeD)
  then have "list_all (\<lambda>(v, a). travel_edge_ok a) (adj_get adj u)"
    using assms(1) by (auto simp: travel_ok_def list_all_iff)
  then show ?thesis using assms(2) by (auto simp: list_all_iff)
qed

lemma reset_trip_keeps:
  assumes "session_ok s" and "reset_trip s a b = (Inr r, s')"
  shows "session_ok s' \<and> leg_invariant s'"
  using assms by (auto simp: reset_trip_def session_ok_def leg_invariant_def split: if_splits)

lemma start_leg_keeps:
  assumes "session_ok s" and "start_leg s d = (Inr r, s')"
  shows "session_ok s' \<and> leg_invariant s'"
proof -
  from assms(2) obtain a km where
    a: "route_options (available_routes s) d = Some a"
    and km: "py_float (dict_get a ''approx_distance_km'' (VNum 0)) = Inr km"
    and s': "active_leg s' = Some \<lparr>origin = current_city s, destination = d, leg_attrs = a,
                             distance_km = km, traveled_km = 0\<rparr>"
            "adjacency s' = adjacency s"
    by (auto simp: start_leg_def Let_def split: if_splits option.splits sum.splits)
  have "(d, a) \<in> set (available_routes s)" using a by (rule route_options_Some)
  then obtain c where "(d, a) \<in> set (adj_get (adjacency s) c)"
    by (auto simp: available_routes_def split: option.splits if_splits)
  then have ok: "travel_edge_ok a" using assms(1) travel_ok_edge by (auto simp: session_ok_def)
  then have "0 \<le> km" using km by (simp add: travel_edge_ok_def)
  then show ?thesis using ok s' assms(1) by (simp add: session_ok_def leg_invariant_def)
qed

lemma travel_day_keeps:
  assumes "session_ok s" and "leg_invariant s" and "travel_day s mode hours = (Inr r, s')"
  shows "session_ok s' \<and> leg_invariant s'"
proof -
  from assms(3) obtain leg where leg: "active_leg s = Some leg" and h: "0 < hours"
    by (auto simp: travel_day_def split: option.splits if_splits)
  from assms(1) leg obtain d where d: "difficulty_for_edge (leg_attrs leg) = Inr d" "0 \<le> d"
    by (auto simp: session_ok_def travel_edge_ok_def split: sum.splits)
  have pot: "0 \<le> speed_for_mode mode * hours * d"
    using speed_positive[of mode] h d(2) by simp
  have inv: "0 \<le> traveled_km leg" "traveled_km leg \<le> distance_km leg"
    using assms(2) leg by (simp_all add: leg_invariant_def)
  define t where "t = min (speed_for_mode mode * hours * d) (remaining_km leg)"
  have t: "0 \<le> t" "traveled_km leg + t \<le> distance_km leg"
    using pot inv by (auto simp: t_def remaining_km_def)
  have cases: "active_leg s' = None \<or>
               active_leg s' = Some (leg\<lparr>traveled_km := traveled_km leg + t\<rparr>)"
    using assms(3) leg h d(1) by (auto simp: travel_day_def Let_def t_def split: if_splits)
  have adj: "adjacency s' = adjacency s"
    using assms(3) leg h d(1) by (auto simp: travel_day_def Let_def split: if_splits)
  show ?thesis using cases t inv adj assms(1) leg
    by (auto simp: session_ok_def leg_invariant_def)
qed

lemma apply_op_keeps:
  assumes "session_ok s" and "leg_invariant s" and "apply_op s x = Some s'"
  shows "session_ok s' \<and> leg_invariant s'"
proof (cases x)
  case (ResetTrip a b)
  then show ?thesis using assms reset_trip_keeps[of s a b]
    by (auto split: prod.splits sum.splits)
next
  case (StartLeg d)
  then show ?thesis using assms start_leg_keeps[of s d]
    by (auto split: prod.splits sum.splits)
next
  case (TravelDay m h)
  then show ?thesis using assms travel_day_keeps[of s m h]
    by (auto split: prod.splits sum.splits)
qed

text \<open>
  Claim C9. On a graph whose edges have a distance and a difficulty that are not negative,
  every run of successful operations keeps the travelled distance of the active leg between
  0 and the total distance of the leg; a single \<open>travel_day\<close> is the run of length one.
\<close>

theorem leg_bounds:
  assumes "session_ok s" and "leg_invariant s" and "run_ops s ops = Some s'"
  shows "leg_invariant s' \<and> session_ok s'"
  using assms
proof (induction ops arbitrary: s)
  case Nil
  then show ?case by simp
next
  case (Cons x xs)
  from Cons.prems(3) obtain s1 where s1: "apply_op s x = Some s1" "run_ops s1 xs = Some s'"
    by (auto split: option.splits)
  from apply_op_keeps[OF Cons.prems(1,2) s1(1)] Cons.IH[OF _ _ s1(2)]
  show ?case by blast
qed


theorem leg_bounds_witness:
  "\<exists>s'. run_ops demo_at_A [StartLeg ''B'', TravelDay ''foot'' 2, TravelDay ''horse'' 3] = Some s' \<and>
     active_leg s' \<noteq> None \<and> leg_invariant s'"
proof -
  have ok: "session_ok demo_at_A"
    by (simp add: session_ok_def travel_ok_def demo_at_A_def demo_adjacency_def adj_get_def
          travel_edge_ok_def demo_edge_def dict_get_def dict_has_def difficulty_for_edge_def
          ROUTE_DIFFICULTY_def)
  have inv: "leg_invariant demo_at_A" by (simp add: leg_invariant_def demo_at_A_def)
  have "\<exists>s'. run_ops demo_at_A [StartLeg ''B'', TravelDay ''foot'' 2, TravelDay ''horse'' 3] = Some s'
          \<and> active_leg s' \<noteq> None"
    by (simp add: start_leg_def travel_day_def Let_def demo_at_A_def demo_adjacency_def adj_get_def
          available_routes_def route_options_def demo_edge_def dict_get_def dict_has_def
          difficulty_for_edge_def ROUTE_DIFFICULTY_def speed_for_mode_def SPEEDS_KMH_def
          remaining_km_def isclose_def)
  then obtain s' where
    r: "run_ops demo_at_A [StartLeg ''B'', TravelDay ''foot'' 2, TravelDay ''horse'' 3] = Some s'"
    and a: "active_leg s' \<noteq> None" by blast
  from leg_bounds[OF ok inv r] r a show ?thesis by blast
qed

section \<open>Properties of the graph models\<close>

lemma fold_update_map:
  "map_of (fold (\<lambda>(k, v). AList.update k v) kvs d) = map_of d ++ map_of (rev kvs)"
proof (induction kvs arbitrary: d)
  case Nil
  then show ?case by simp
next
  case (Cons x kvs)
  obtain k v where x: "x = (k, v)" by (cases x)
  show ?case
    by (simp add: x Cons.IH update_conv' map_add_def fun_eq_iff split: option.splits)
qed

lemma fold_update_distinct:
  "distinct (map fst d) \<Longrightarrow> distinct (map fst (fold (\<lambda>(k, v). AList.update k v) kvs d))"
  by (induction kvs arbitrary: d) (auto simp: distinct_update)

lemma py_dict_map: "map_of (py_dict kvs) = map_of (rev kvs)"
  by (simp add: py_dict_def fold_update_map)

lemma py_dict_distinct: "distinct (map fst (py_dict kvs))"
  by (simp add: py_dict_def fold_update_distinct)

lemma dict_update_map: "map_of (dict_update d other) = map_of d ++ map_of (rev other)"
  by (simp add: dict_update_def fold_update_map)

lemma dict_update_distinct:
  "distinct (map fst d) \<Longrightarrow> distinct (map fst (dict_update d other))"
  by (simp add: dict_update_def fold_update_distinct)

lemma sorted_pair_commute: "sorted_pair a b = sorted_pair b a"
  by (auto simp: sorted_pair_def)

lemma map_entry_keys: "map fst (AList.map_entry k f xs) = map fst xs"
  by (induction xs) auto

lemma add_edge_commute: "add_edge g a b atts = add_edge g b a atts"
  by (auto simp: add_edge_def sorted_pair_commute[of a b] Let_def)

lemma add_edge_stored:
  assumes "add_edge g a b atts = Inr g'"
  shows "map fst (g_edges g') =
           (if dict_has (g_edges g) (sorted_pair a b) then map fst (g_edges g)
            else map fst (g_edges g) @ [sorted_pair a b])"
    and "k \<noteq> sorted_pair a b \<Longrightarrow> map_of (g_edges g') k = map_of (g_edges g) k"
    and "\<exists>bag. map_of (g_edges g') (sorted_pair a b) = Some bag \<and>
           (\<forall>k. map_of bag k =
              merged (map_of (g_edges g) (sorted_pair a b)) (edge_items (sorted_pair a b) atts) k)"
proof -
  let ?key = "sorted_pair a b"
  let ?pl = "py_dict (edge_items ?key atts)"
  have g': "g' = (if dict_has (g_edges g) ?key
            then g\<lparr>g_edges := AList.map_entry ?key (\<lambda>old. dict_update old ?pl) (g_edges g)\<rparr>
            else g\<lparr>g_edges := g_edges g @ [(?key, ?pl)]\<rparr>)"
    using assms by (auto simp: add_edge_def Let_def edge_items_def split: if_splits)
  show "map fst (g_edges g') =
           (if dict_has (g_edges g) ?key then map fst (g_edges g)
            else map fst (g_edges g) @ [?key])"
    by (simp add: g' map_entry_keys)
  show "map_of (g_edges g') k = map_of (g_edges g) k" if "k \<noteq> ?key"
    using that by (auto simp: g' map_of_map_entry map_add_def split: option.splits)
  show "\<exists>bag. map_of (g_edges g') ?key = Some bag \<and>
           (\<forall>k. map_of bag k = merged (map_of (g_edges g) ?key) (edge_items ?key atts) k)"
  proof (cases "map_of (g_edges g) ?key")
    case None
    then have "map_of (g_edges g') ?key = Some ?pl"
      by (simp add: g' dict_has_def map_add_def)
    then show ?thesis using None by (simp add: merged_def py_dict_map split: option.splits)
  next
    case (Some old)
    then have "map_of (g_edges g') ?key = Some (dict_update old ?pl)"
      by (simp add: g' dict_has_def map_of_map_entry)
    moreover have "map_of (rev ?pl) = map_of ?pl"
      using py_dict_distinct[of "edge_items ?key atts"]
      by (metis distinct_rev map_of_inject_set rev_map set_rev distinct_map)
    ultimately show ?thesis using Some
      by (simp add: merged_def dict_update_map py_dict_map map_add_def split: option.splits)
  qed
qed

lemma upsert_edge_commute: "upsert_edge gd a b atts = upsert_edge gd b a atts"
  by (simp add: upsert_edge_def find_edge_index_def sorted_pair_commute[of a b])

lemma keep_edges_filter:
  "keep_edges x es = Inr r \<Longrightarrow> r = filter (\<lambda>e. \<not> references e x) es"
  by (induction es arbitrary: r) (auto simp: references_def split: sum.splits if_splits)

lemma keep_edges_typed:
  "list_all (\<lambda>e. case dict_get e ''nodes'' (VList []) of VList xs \<Rightarrow> True | _ \<Rightarrow> False) es
     \<Longrightarrow> \<exists>r. keep_edges x es = Inr r"
  by (induction es) (auto split: pyval.splits sum.splits)


lemma find_edge_from_range:
  "find_edge_from idx es key = Inr (Some i) \<Longrightarrow> idx \<le> i \<and> i < idx + length es"
  by (induction es arbitrary: idx) (fastforce split: sum.splits if_splits)+

text \<open>
  Claim C4, as stated, fails for \<open>upsert_edge\<close>: an edge A-B with a route type, upserted as
  (B, A) with a distance only, is replaced by the new record, and the route type is gone.
\<close>

theorem upsert_edge_counterexample:
  "map_of (gd_edges demo_editor ! 0) ''route_type'' = Some (VStr ''road'') \<and>
   upsert_edge demo_editor ''B'' ''A'' [(''approx_distance_km'', VNum 5)] =
     (Inr (), demo_editor\<lparr>gd_edges :=
        [[(''nodes'', VList [VStr ''A'', VStr ''B'']), (''approx_distance_km'', VNum 5)]]\<rparr>) \<and>
   map_of (gd_edges (snd (upsert_edge demo_editor ''B'' ''A'' [(''approx_distance_km'', VNum 5)])) ! 0)
     ''route_type'' = None"
  by (simp add: demo_editor_def upsert_edge_def find_edge_index_def sorted_pair_def dict_get_def
        py_dict_def List.map_filter_def)

text \<open>
  Claim C4, amended. \<open>add_edge\<close> for (A, B) and for (B, A) is the same operation; it keeps
  one edge for the canonical pair and merges the new items into the stored bag key by key
  (the last value of a new key wins, the other keys of the stored bag stay). \<open>upsert_edge\<close>
  for (A, B) and for (B, A) is the same operation too and keeps one edge for the pair, but it
  replaces the stored record of the pair by the new one.
\<close>

theorem edge_insert_canonical:
  "add_edge g a b atts = add_edge g b a atts \<and>
   (\<forall>g'. add_edge g a b atts = Inr g' \<longrightarrow>
      map fst (g_edges g') =
        (if dict_has (g_edges g) (sorted_pair a b) then map fst (g_edges g)
         else map fst (g_edges g) @ [sorted_pair a b]) \<and>
      (\<forall>k. k \<noteq> sorted_pair a b \<longrightarrow> map_of (g_edges g') k = map_of (g_edges g) k) \<and>
      (\<exists>bag. map_of (g_edges g') (sorted_pair a b) = Some bag \<and>
         (\<forall>k. map_of bag k =
            merged (map_of (g_edges g) (sorted_pair a b)) (edge_items (sorted_pair a b) atts) k))) \<and>
   upsert_edge gd a b atts = upsert_edge gd b a atts \<and>
   (\<forall>i. find_edge_index gd a b = Inr (Some i) \<longrightarrow>
      i < length (gd_edges gd) \<and>
      upsert_edge gd a b atts =
        (Inr (), gd\<lparr>gd_edges := (gd_edges gd)
           [i := py_dict ((''nodes'', VList [VStr (fst (sorted_pair a b)), VStr (snd (sorted_pair a b))])
                          # atts)]\<rparr>)) \<and>
   (find_edge_index gd a b = Inr None \<longrightarrow>
      upsert_edge gd a b atts =
        (Inr (), gd\<lparr>gd_edges := gd_edges gd @
           [py_dict ((''nodes'', VList [VStr (fst (sorted_pair a b)), VStr (snd (sorted_pair a b))])
                     # atts)]\<rparr>))"
proof -
  have 1: "add_edge g a b atts = add_edge g b a atts" by (rule add_edge_commute)
  have 2: "map fst (g_edges g') =
        (if dict_has (g_edges g) (sorted_pair a b) then map fst (g_edges g)
         else map fst (g_edges g) @ [sorted_pair a b]) \<and>
      (\<forall>k. k \<noteq> sorted_pair a b \<longrightarrow> map_of (g_edges g') k = map_of (g_edges g) k) \<and>
      (\<exists>bag. map_of (g_edges g') (sorted_pair a b) = Some bag \<and>
         (\<forall>k. map_of bag k =
            merged (map_of (g_edges g) (sorted_pair a b)) (edge_items (sorted_pair a b) atts) k))"
    if "add_edge g a b atts = Inr g'" for g'
    using add_edge_stored[OF that] by blast
  have 3: "upsert_edge gd a b atts = upsert_edge gd b a atts" by (rule upsert_edge_commute)
  have 4: "i < length (gd_edges gd) \<and>
      upsert_edge gd a b atts =
        (Inr (), gd\<lparr>gd_edges := (gd_edges gd)
           [i := py_dict ((''nodes'', VList [VStr (fst (sorted_pair a b)), VStr (snd (sorted_pair a b))])
                          # atts)]\<rparr>)"
    if "find_edge_index gd a b = Inr (Some i)" for i
    using that find_edge_from_range[of 0 "gd_edges gd" "sorted_pair a b" i]
    by (simp add: upsert_edge_def find_edge_index_def Let_def)
  have 5: "find_edge_index gd a b = Inr None \<longrightarrow>
      upsert_edge gd a b atts =
        (Inr (), gd\<lparr>gd_edges := gd_edges gd @
           [py_dict ((''nodes'', VList [VStr (fst (sorted_pair a b)), VStr (snd (sorted_pair a b))])
                     # atts)]\<rparr>)"
    by (simp add: upsert_edge_def Let_def)
  show ?thesis using 1 2 3 4 5 by blast
qed

theorem edge_insert_canonical_witness:
  "add_edge demo_graph ''B'' ''A'' [(''approx_distance_km'', VNum 5)] =
     add_edge demo_graph ''A'' ''B'' [(''approx_distance_km'', VNum 5)] \<and>
   (\<exists>g' bag. add_edge demo_graph ''B'' ''A'' [(''approx_distance_km'', VNum 5)] = Inr g' \<and>
      map fst (g_edges g') = [(''A'', ''B'')] \<and>
      map_of (g_edges g') (''A'', ''B'') = Some bag \<and>
      map_of bag ''route_type'' = Some (VStr ''road'') \<and>
      map_of bag ''approx_distance_km'' = Some (VNum 5)) \<and>
   find_edge_index demo_editor ''B'' ''A'' = Inr (Some 0) \<and>
   gd_edges (snd (upsert_edge demo_editor ''B'' ''A'' [(''approx_distance_km'', VNum 5)])) =
     [[(''nodes'', VList [VStr ''A'', VStr ''B'']), (''approx_distance_km'', VNum 5)]]"
proof -
  let ?at = "[(''approx_distance_km'', VNum 5)]"
  note t = edge_insert_canonical[of demo_graph "''B''" "''A''" ?at demo_editor]
  have sp: "sorted_pair ''B'' ''A'' = (''A'', ''B'')" by (simp add: sorted_pair_def)
  have ok: "\<exists>g'. add_edge demo_graph ''B'' ''A'' ?at = Inr g'"
    by (simp add: add_edge_def demo_graph_def dict_has_def sp Let_def kwargs_clash_def)
  then obtain g' where g': "add_edge demo_graph ''B'' ''A'' ?at = Inr g'" by blast
  have has: "dict_has (g_edges demo_graph) (''A'', ''B'')"
    by (simp add: demo_graph_def dict_has_def)
  from t g' sp has obtain bag where
    keys: "map fst (g_edges g') = map fst (g_edges demo_graph)"
    and bag: "map_of (g_edges g') (''A'', ''B'') = Some bag"
      "\<forall>k. map_of bag k =
         merged (map_of (g_edges demo_graph) (''A'', ''B'')) (edge_items (''A'', ''B'') ?at) k"
    by auto
  have k: "map fst (g_edges g') = [(''A'', ''B'')]" using keys by (simp add: demo_graph_def)
  have r: "map_of bag ''route_type'' = Some (VStr ''road'')"
    using bag(2) by (simp add: merged_def edge_items_def demo_graph_def)
  have d: "map_of bag ''approx_distance_km'' = Some (VNum 5)"
    using bag(2) by (simp add: merged_def edge_items_def demo_graph_def)
  have f: "find_edge_index demo_editor ''B'' ''A'' = Inr (Some 0)"
    by (simp add: find_edge_index_def demo_editor_def sp dict_get_def List.map_filter_def)
  have u: "gd_edges (snd (upsert_edge demo_editor ''B'' ''A'' ?at)) =
     [[(''nodes'', VList [VStr ''A'', VStr ''B'']), (''approx_distance_km'', VNum 5)]]"
  proof -
    from t f have "upsert_edge demo_editor ''B'' ''A'' ?at =
        (Inr (), demo_editor\<lparr>gd_edges := (gd_edges demo_editor)
           [0 := py_dict ((''nodes'', VList [VStr (fst (sorted_pair ''B'' ''A'')),
                                             VStr (snd (sorted_pair ''B'' ''A''))]) # ?at)]\<rparr>)"
      by blast
    then show ?thesis by (simp add: sp py_dict_def demo_editor_def)
  qed
  have c: "add_edge demo_graph ''B'' ''A'' ?at = add_edge demo_graph ''A'' ''B'' ?at"
    using t by blast
  have e: "\<exists>g' bag. add_edge demo_graph ''B'' ''A'' ?at = Inr g' \<and>
      map fst (g_edges g') = [(''A'', ''B'')] \<and>
      map_of (g_edges g') (''A'', ''B'') = Some bag \<and>
      map_of bag ''route_type'' = Some (VStr ''road'') \<and>
      map_of bag ''approx_distance_km'' = Some (VNum 5)"
    using g' k bag(1) r d by (intro exI[of _ g'] exI[of _ bag] conjI)
  show ?thesis by (intro conjI) (rule c, rule e, rule f, rule u)
qed

text \<open>
  Claim C6. After \<open>remove_node\<close> of X the node X is no key of the node collection and no
  remaining edge names X among its endpoints; the remaining edges are the edges that did not
  name X, and the other nodes are untouched.
\<close>

theorem remove_node_cascade:
  assumes "edges_typed gd"
  shows "\<exists>gd'. remove_node gd x = (Inr (), gd') \<and>
           \<not> dict_has (gd_nodes gd') x \<and>
           (\<forall>e \<in> set (gd_edges gd'). \<not> references e x) \<and>
           gd_edges gd' = filter (\<lambda>e. \<not> references e x) (gd_edges gd) \<and>
           (\<forall>k. k \<noteq> x \<longrightarrow> map_of (gd_nodes gd') k = map_of (gd_nodes gd) k)"
proof -
  from assms obtain r where r: "keep_edges x (gd_edges gd) = Inr r"
    using keep_edges_typed[of "gd_edges gd" x] by (auto simp: edges_typed_def)
  have f: "r = filter (\<lambda>e. \<not> references e x) (gd_edges gd)"
    using r by (rule keep_edges_filter)
  have "remove_node gd x = (Inr (), gd\<lparr>gd_nodes := AList.delete x (gd_nodes gd), gd_edges := r\<rparr>)"
    using r by (simp add: remove_node_def)
  then show ?thesis using f by (auto simp: dict_has_def delete_conv')
qed

theorem remove_node_cascade_witness:
  "remove_node demo_editor ''A'' = (Inr (), \<lparr>gd_nodes = [(''B'', [])], gd_edges = []\<rparr>)"
proof -
  have t: "edges_typed demo_editor" by (simp add: edges_typed_def demo_editor_def dict_get_def)
  from remove_node_cascade[OF t, of "''A''"] obtain gd' where
    g: "remove_node demo_editor ''A'' = (Inr (), gd')"
    "gd_edges gd' = filter (\<lambda>e. \<not> references e ''A'') (gd_edges demo_editor)" by blast
  have "gd_edges gd' = []" using g(2) by (simp add: demo_editor_def references_def dict_get_def)
  moreover have "gd_nodes gd' = [(''B'', [])]"
    using g(1) by (auto simp: remove_node_def demo_editor_def Let_def dict_get_def split: sum.splits)
  ultimately show ?thesis using g(1) by simp
qed

section \<open>The round trip through the document\<close>

lemma fold_update_keys:
  "fst ` set (fold (\<lambda>(k, v). AList.update k v) kvs d) = fst ` set d \<union> fst ` set kvs"
proof (induction kvs arbitrary: d)
  case Nil
  then show ?case by simp
next
  case (Cons x kvs)
  obtain k v where x: "x = (k, v)" by (cases x)
  have "fst ` set (AList.update k v d) = insert k (fst ` set d)" by (simp add: dom_update)
  then show ?case by (simp add: x Cons.IH Un_commute insert_commute)
qed

lemma py_dict_keys: "fst ` set (py_dict kvs) = fst ` set kvs"
  by (simp add: py_dict_def fold_update_keys)

lemma dict_update_keys: "fst ` set (dict_update d other) = fst ` set d \<union> fst ` set other"
  by (simp add: dict_update_def fold_update_keys)

lemma map_of_rev_distinct: "distinct (map fst xs) \<Longrightarrow> map_of (rev xs) = map_of xs"
  by (metis distinct_rev map_of_inject_set rev_map set_rev)

lemma kwargs_clash_keys: "kwargs_clash ps a = (\<exists>k \<in> fst ` set a. k \<in> set ps)"
  by (auto simp: kwargs_clash_def list_ex_iff case_prod_beta)

lemma dict_has_keys: "dict_has d k = (k \<in> fst ` set d)"
  by (simp add: dict_has_def map_of_eq_None_iff)

lemma map_entry_set:
  assumes "distinct (map fst xs)" and "(k', v') \<in> set (AList.map_entry k f xs)"
  shows "(k' \<noteq> k \<and> (k', v') \<in> set xs) \<or> (k' = k \<and> (\<exists>v. (k, v) \<in> set xs \<and> v' = f v))"
  using assms
proof (induction xs)
  case Nil
  then show ?case by simp
next
  case (Cons p ps)
  show ?case
  proof (cases "fst p = k")
    case True
    then have "\<forall>q \<in> set ps. fst q \<noteq> k" using Cons.prems(1) by (auto simp: image_iff)
    then show ?thesis using Cons.prems(2) True by (cases p) auto
  next
    case False
    then show ?thesis using Cons by (cases p) auto
  qed
qed

text \<open>The payload of a node and of an edge, as a map.\<close>

lemma node_payload_ok:
  assumes "''id'' \<notin> fst ` set a" and "\<not> kwargs_clash [''self'', ''node_id''] a"
  shows "node_bag_ok n (py_dict ((''id'', VStr n) # a))"
proof -
  have "map_of (rev a) ''id'' = None" using assms(1) by (simp add: map_of_eq_None_iff)
  then have "map_of (py_dict ((''id'', VStr n) # a)) ''id'' = Some (VStr n)"
    by (simp add: py_dict_map map_add_def)
  moreover have "\<not> kwargs_clash [''self'', ''node_id''] (py_dict ((''id'', VStr n) # a))"
    using assms(2) by (auto simp: kwargs_clash_keys py_dict_keys)
  ultimately show ?thesis by (simp add: node_bag_ok_def py_dict_distinct)
qed

lemma node_merge_ok:
  assumes "node_bag_ok n old" and "node_bag_ok n payload"
  shows "node_bag_ok n (dict_update old payload)"
proof -
  have "map_of (rev payload) ''id'' = Some (VStr n)"
    using assms(2) by (simp add: node_bag_ok_def map_of_rev_distinct)
  then have "map_of (dict_update old payload) ''id'' = Some (VStr n)"
    by (simp add: dict_update_map map_add_def)
  moreover have "\<not> kwargs_clash [''self'', ''node_id''] (dict_update old payload)"
    using assms by (auto simp: kwargs_clash_keys dict_update_keys node_bag_ok_def)
  ultimately show ?thesis using assms(1) by (simp add: node_bag_ok_def dict_update_distinct)
qed

lemma add_node_nodes:
  assumes "add_node g n a = Inr g'"
  shows "g_edges g' = g_edges g"
    and "fst ` set (g_nodes g') = insert n (fst ` set (g_nodes g))"
    and "map fst (g_nodes g') =
           (if dict_has (g_nodes g) n then map fst (g_nodes g) else map fst (g_nodes g) @ [n])"
proof -
  have g': "g' = (if dict_has (g_nodes g) n
        then g\<lparr>g_nodes := AList.map_entry n
               (\<lambda>old. dict_update old (py_dict ((''id'', VStr n) # a))) (g_nodes g)\<rparr>
        else g\<lparr>g_nodes := g_nodes g @ [(n, py_dict ((''id'', VStr n) # a))]\<rparr>)"
    using assms by (auto simp: add_node_def Let_def split: if_splits)
  show "g_edges g' = g_edges g" by (simp add: g')
  show "map fst (g_nodes g') =
           (if dict_has (g_nodes g) n then map fst (g_nodes g) else map fst (g_nodes g) @ [n])"
    by (simp add: g' map_entry_keys)
  then have "set (map fst (g_nodes g')) = insert n (set (map fst (g_nodes g)))"
    by (auto simp: dict_has_keys)
  then show "fst ` set (g_nodes g') = insert n (fst ` set (g_nodes g))" by simp
qed

lemma add_node_inv:
  assumes "graph_inv g" and "add_node g n a = Inr g'" and "''id'' \<notin> fst ` set a"
  shows "graph_inv g'"
proof -
  let ?pl = "py_dict ((''id'', VStr n) # a)"
  have nc: "\<not> kwargs_clash [''self'', ''node_id''] a"
    using assms(2) by (auto simp: add_node_def split: if_splits)
  have pl: "node_bag_ok n ?pl" using assms(3) nc by (rule node_payload_ok)
  have dn: "distinct (map fst (g_nodes g))" using assms(1) by (simp add: graph_inv_def)
  have d': "distinct (map fst (g_nodes g'))"
    using add_node_nodes(3)[OF assms(2)] dn by (auto simp: dict_has_keys)
  have nodes: "node_bag_ok k bag" if "(k, bag) \<in> set (g_nodes g')" for k bag
  proof (cases "dict_has (g_nodes g) n")
    case True
    then have "g_nodes g' = AList.map_entry n (\<lambda>old. dict_update old ?pl) (g_nodes g)"
      using assms(2) by (auto simp: add_node_def Let_def split: if_splits)
    with that map_entry_set[OF dn, of k bag n "\<lambda>old. dict_update old ?pl"]
    have "(k, bag) \<in> set (g_nodes g) \<or>
          (k = n \<and> (\<exists>old. (n, old) \<in> set (g_nodes g) \<and> bag = dict_update old ?pl))"
      by auto
    then show ?thesis using assms(1) pl node_merge_ok
      by (fastforce simp: graph_inv_def)
  next
    case False
    then have "g_nodes g' = g_nodes g @ [(n, ?pl)]"
      using assms(2) by (auto simp: add_node_def Let_def split: if_splits)
    with that assms(1) pl show ?thesis by (auto simp: graph_inv_def)
  qed
  have edges: "edge_bag_ok g' key bag" if "(key, bag) \<in> set (g_edges g')" for key bag
  proof -
    have "edge_bag_ok g key bag"
      using that assms(1) add_node_nodes(1)[OF assms(2)] by (auto simp: graph_inv_def)
    then show ?thesis
      using add_node_nodes(2)[OF assms(2)] by (auto simp: edge_bag_ok_def dict_has_keys)
  qed
  show ?thesis
    using d' nodes edges assms(1) add_node_nodes(1)[OF assms(2)]
    by (auto simp: graph_inv_def)
qed


lemma sorted_pair_idem:
  "sorted_pair (fst (sorted_pair a b)) (snd (sorted_pair a b)) = sorted_pair a b"
  by (auto simp: sorted_pair_def)

lemma sorted_pair_fst_snd: "fst (sorted_pair a b) \<in> {a, b}" "snd (sorted_pair a b) \<in> {a, b}"
  by (auto simp: sorted_pair_def)

lemma edge_payload_ok:
  assumes "''nodes'' \<notin> fst ` set a" and "\<not> kwargs_clash [''self'', ''source'', ''target''] a"
    and "dict_has (g_nodes g) s" and "dict_has (g_nodes g) t"
  shows "edge_bag_ok g (sorted_pair s t) (py_dict (edge_items (sorted_pair s t) a))"
proof -
  let ?key = "sorted_pair s t"
  let ?pl = "py_dict (edge_items ?key a)"
  have "map_of (rev a) ''nodes'' = None" using assms(1) by (simp add: map_of_eq_None_iff)
  then have n: "map_of ?pl ''nodes'' = Some (VList [VStr (fst ?key), VStr (snd ?key)])"
    by (simp add: py_dict_map edge_items_def map_add_def)
  have u: "dict_has ?pl ''undirected''" by (simp add: dict_has_keys py_dict_keys edge_items_def)
  have c: "\<not> kwargs_clash [''self'', ''source'', ''target''] ?pl"
    using assms(2) by (auto simp: kwargs_clash_keys py_dict_keys edge_items_def)
  have h: "dict_has (g_nodes g) (fst ?key)" "dict_has (g_nodes g) (snd ?key)"
    using assms(3,4) sorted_pair_fst_snd[of s t] by auto
  show ?thesis using n u c h by (simp add: edge_bag_ok_def py_dict_distinct sorted_pair_idem)
qed

lemma edge_merge_ok:
  assumes "edge_bag_ok g key old" and "edge_bag_ok g key payload"
  shows "edge_bag_ok g key (dict_update old payload)"
proof -
  have "map_of (rev payload) ''nodes'' = Some (VList [VStr (fst key), VStr (snd key)])"
    using assms(2) by (simp add: edge_bag_ok_def map_of_rev_distinct)
  then have n: "map_of (dict_update old payload) ''nodes'' =
      Some (VList [VStr (fst key), VStr (snd key)])"
    by (simp add: dict_update_map map_add_def)
  have c: "\<not> kwargs_clash [''self'', ''source'', ''target''] (dict_update old payload)"
    using assms by (auto simp: kwargs_clash_keys dict_update_keys edge_bag_ok_def)
  have u: "dict_has (dict_update old payload) ''undirected''"
    using assms(1) by (auto simp: dict_has_keys dict_update_keys edge_bag_ok_def)
  show ?thesis using assms(1) n c u by (simp add: edge_bag_ok_def dict_update_distinct)
qed

lemma edge_bag_ok_nodes:
  "fst ` set (g_nodes g) \<subseteq> fst ` set (g_nodes g') \<Longrightarrow> edge_bag_ok g key bag
     \<Longrightarrow> edge_bag_ok g' key bag"
  by (auto simp: edge_bag_ok_def dict_has_keys)

lemma add_edge_inv:
  assumes "graph_inv g" and "add_edge g s t a = Inr g'" and "''nodes'' \<notin> fst ` set a"
  shows "graph_inv g'"
proof -
  let ?key = "sorted_pair s t"
  let ?pl = "py_dict (edge_items ?key a)"
  have pre: "\<not> kwargs_clash [''self'', ''source'', ''target''] a"
    "dict_has (g_nodes g) s" "dict_has (g_nodes g) t"
    using assms(2) by (auto simp: add_edge_def split: if_splits)
  have g': "g' = (if dict_has (g_edges g) ?key
            then g\<lparr>g_edges := AList.map_entry ?key (\<lambda>old. dict_update old ?pl) (g_edges g)\<rparr>
            else g\<lparr>g_edges := g_edges g @ [(?key, ?pl)]\<rparr>)"
    using assms(2) by (auto simp: add_edge_def Let_def edge_items_def split: if_splits)
  have nodes: "g_nodes g' = g_nodes g" by (simp add: g')
  have pl: "edge_bag_ok g ?key ?pl" using assms(3) pre by (rule edge_payload_ok)
  have de: "distinct (map fst (g_edges g))" using assms(1) by (simp add: graph_inv_def)
  have d': "distinct (map fst (g_edges g'))"
    using de by (auto simp: g' map_entry_keys dict_has_keys)
  have old: "edge_bag_ok g key bag" if "(key, bag) \<in> set (g_edges g)" for key bag
    using that assms(1) by (auto simp: graph_inv_def)
  have edges: "edge_bag_ok g key bag" if "(key, bag) \<in> set (g_edges g')" for key bag
  proof (cases "dict_has (g_edges g) ?key")
    case True
    then have "g_edges g' = AList.map_entry ?key (\<lambda>old. dict_update old ?pl) (g_edges g)"
      by (simp add: g')
    with that map_entry_set[OF de, of key bag ?key "\<lambda>old. dict_update old ?pl"]
    have "(key, bag) \<in> set (g_edges g) \<or>
          (key = ?key \<and> (\<exists>b. (?key, b) \<in> set (g_edges g) \<and> bag = dict_update b ?pl))"
      by auto
    then show ?thesis using old pl edge_merge_ok by blast
  next
    case False
    then have "g_edges g' = g_edges g @ [(?key, ?pl)]" by (simp add: g')
    with that have "(key, bag) \<in> set (g_edges g) \<or> (key = ?key \<and> bag = ?pl)" by auto
    then show ?thesis using old pl by blast
  qed
  have "edge_bag_ok g' key bag" if "(key, bag) \<in> set (g_edges g')" for key bag
    using edges[OF that] nodes by (simp add: edge_bag_ok_def)
  then show ?thesis using d' assms(1) nodes by (auto simp: graph_inv_def)
qed

lemma build_inv:
  assumes "graph_inv g0" and "list_all plain_op ops" and "build g0 ops = Inr g"
  shows "graph_inv g"
  using assms
proof (induction ops arbitrary: g0)
  case Nil
  then show ?case by simp
next
  case (Cons x xs)
  show ?case
  proof (cases x)
    case (AddNode n a)
    with Cons.prems obtain g1 where g1: "add_node g0 n a = Inr g1" "build g1 xs = Inr g"
      by (auto split: sum.splits)
    have "graph_inv g1" using add_node_inv[OF Cons.prems(1) g1(1)] Cons.prems(2) AddNode by simp
    then show ?thesis using Cons.IH[OF _ _ g1(2)] Cons.prems(2) by simp
  next
    case (AddEdge s t a)
    with Cons.prems obtain g1 where g1: "add_edge g0 s t a = Inr g1" "build g1 xs = Inr g"
      by (auto split: sum.splits)
    have "graph_inv g1" using add_edge_inv[OF Cons.prems(1) g1(1)] Cons.prems(2) AddEdge by simp
    then show ?thesis using Cons.IH[OF _ _ g1(2)] Cons.prems(2) by simp
  qed
qed

lemma empty_graph_inv: "graph_inv empty_graph"
  by (simp add: graph_inv_def empty_graph_def)


lemma map_of_filter_keys:
  "map_of (filter (\<lambda>(k, v). P k) xs) x = (if P x then map_of xs x else None)"
  by (induction xs) auto

lemma filter_keys_subset: "fst ` set (filter (\<lambda>(k, v). P k) xs) \<subseteq> fst ` set xs"
  by auto

lemma filter_keys_distinct: "distinct (map fst xs) \<Longrightarrow> distinct (map fst (filter Q xs))"
  by (simp add: distinct_map_filter)

lemma node_repack:
  assumes "node_bag_ok k bag"
  shows "map_of (py_dict ((''id'', VStr k) # filter (\<lambda>(k', v). k' \<noteq> ''id'') bag)) = map_of bag"
proof
  fix x
  let ?F = "filter (\<lambda>(k', v). k' \<noteq> ''id'') bag"
  have d: "distinct (map fst ?F)" using assms by (simp add: node_bag_ok_def filter_keys_distinct)
  have F: "map_of (rev ?F) x = (if x \<noteq> ''id'' then map_of bag x else None)"
    using map_of_rev_distinct[OF d] map_of_filter_keys[of "\<lambda>k'. k' \<noteq> ''id''" bag x] by simp
  have "map_of (py_dict ((''id'', VStr k) # ?F)) x =
          (case map_of (rev ?F) x of Some v \<Rightarrow> Some v | None \<Rightarrow> map_of [(''id'', VStr k)] x)"
    by (simp add: py_dict_map map_add_def split: option.splits)
  then show "map_of (py_dict ((''id'', VStr k) # ?F)) x = map_of bag x"
    using F assms by (auto simp: node_bag_ok_def split: option.splits)
qed

lemma edge_repack:
  assumes "edge_bag_ok g key bag"
  shows "map_of (py_dict (edge_items key
            (filter (\<lambda>(k', v). k' \<notin> {''nodes'', ''source'', ''target''}) bag))) = map_of bag"
proof
  fix x
  let ?F = "filter (\<lambda>(k', v). k' \<notin> {''nodes'', ''source'', ''target''}) bag"
  have d: "distinct (map fst ?F)" using assms by (simp add: edge_bag_ok_def filter_keys_distinct)
  have F: "map_of (rev ?F) x =
      (if x \<notin> {''nodes'', ''source'', ''target''} then map_of bag x else None)"
    using map_of_rev_distinct[OF d]
      map_of_filter_keys[of "\<lambda>k'. k' \<notin> {''nodes'', ''source'', ''target''}" bag x] by simp
  have st: "map_of bag ''source'' = None" "map_of bag ''target'' = None"
    using assms by (auto simp: edge_bag_ok_def kwargs_clash_keys map_of_eq_None_iff)
  have u: "map_of bag ''undirected'' \<noteq> None"
    using assms unfolding edge_bag_ok_def dict_has_def by blast
  have n: "map_of bag ''nodes'' = Some (VList [VStr (fst key), VStr (snd key)])"
    using assms by (simp add: edge_bag_ok_def)
  have "map_of (py_dict (edge_items key ?F)) x =
          (case map_of (rev ?F) x of Some v \<Rightarrow> Some v
           | None \<Rightarrow> map_of [(''undirected'', VBool True),
                              (''nodes'', VList [VStr (fst key), VStr (snd key)])] x)"
    by (simp add: py_dict_map edge_items_def map_add_def split: option.splits)
  then show "map_of (py_dict (edge_items key ?F)) x = map_of bag x"
    using F st u n by (auto split: option.splits)
qed

lemma load_nodes_fresh:
  assumes "distinct ks" and "set ks \<inter> fst ` set (g_nodes g0) = {}"
    and "\<forall>k \<in> set ks. node_bag_ok k (f k)"
  shows "load_nodes g0 (map f ks) =
           Inr (g0\<lparr>g_nodes := g_nodes g0 @
                  map (\<lambda>k. (k, py_dict ((''id'', VStr k) # filter (\<lambda>(k', v). k' \<noteq> ''id'') (f k)))) ks\<rparr>)"
  using assms
proof (induction ks arbitrary: g0)
  case Nil
  then show ?case by simp
next
  case (Cons k ks)
  let ?P = "\<lambda>k. py_dict ((''id'', VStr k) # filter (\<lambda>(k', v). k' \<noteq> ''id'') (f k))"
  let ?g1 = "g0\<lparr>g_nodes := g_nodes g0 @ [(k, ?P k)]\<rparr>"
  have ok: "node_bag_ok k (f k)" using Cons.prems(3) by simp
  have nc: "\<not> kwargs_clash [''self'', ''node_id''] (filter (\<lambda>(k', v). k' \<noteq> ''id'') (f k))"
    using ok by (auto simp: node_bag_ok_def kwargs_clash_keys)
  have fresh: "\<not> dict_has (g_nodes g0) k" using Cons.prems(2) by (auto simp: dict_has_keys)
  have a: "add_node g0 k (filter (\<lambda>(k', v). k' \<noteq> ''id'') (f k)) = Inr ?g1"
    using nc fresh by (simp add: add_node_def Let_def)
  have id: "map_of (f k) ''id'' = Some (VStr k)" using ok by (simp add: node_bag_ok_def)
  have "load_nodes ?g1 (map f ks) =
      Inr (?g1\<lparr>g_nodes := g_nodes ?g1 @ map (\<lambda>k. (k, ?P k)) ks\<rparr>)"
    using Cons.prems by (intro Cons.IH) auto
  then show ?case using a id by simp
qed

lemma load_edges_fresh:
  assumes "distinct ks" and "set ks \<inter> fst ` set (g_edges g0) = {}"
    and "\<forall>k \<in> set ks. edge_bag_ok g0 k (f k)"
  shows "load_edges g0 (map f ks) =
           Inr (g0\<lparr>g_edges := g_edges g0 @
                  map (\<lambda>k. (k, py_dict (edge_items k
                    (filter (\<lambda>(k', v). k' \<notin> {''nodes'', ''source'', ''target''}) (f k))))) ks\<rparr>)"
  using assms
proof (induction ks arbitrary: g0)
  case Nil
  then show ?case by simp
next
  case (Cons k ks)
  let ?F = "\<lambda>k. filter (\<lambda>(k', v). k' \<notin> {''nodes'', ''source'', ''target''}) (f k)"
  let ?Q = "\<lambda>k. py_dict (edge_items k (?F k))"
  let ?g1 = "g0\<lparr>g_edges := g_edges g0 @ [(k, ?Q k)]\<rparr>"
  have ok: "edge_bag_ok g0 k (f k)" using Cons.prems(3) by simp
  have n: "map_of (f k) ''nodes'' = Some (VList [VStr (fst k), VStr (snd k)])"
    using ok by (simp add: edge_bag_ok_def)
  have ep: "edge_endpoints (f k) = Inr (VStr (fst k), VStr (snd k))"
    using n by (simp add: edge_endpoints_def dict_has_def dict_get_def)
  have nc: "\<not> kwargs_clash [''self'', ''source'', ''target''] (?F k)"
    using ok by (auto simp: edge_bag_ok_def kwargs_clash_keys)
  have sp: "sorted_pair (fst k) (snd k) = k" using ok by (simp add: edge_bag_ok_def)
  have fresh: "\<not> dict_has (g_edges g0) k" using Cons.prems(2) by (auto simp: dict_has_keys)
  have a: "add_edge g0 (fst k) (snd k) (?F k) = Inr ?g1"
    using nc fresh ok sp by (simp add: add_edge_def Let_def edge_bag_ok_def edge_items_def)
  have "\<forall>k' \<in> set ks. edge_bag_ok ?g1 k' (f k')"
    using Cons.prems(3) by (simp add: edge_bag_ok_def)
  then have "load_edges ?g1 (map f ks) =
      Inr (?g1\<lparr>g_edges := g_edges ?g1 @ map (\<lambda>k. (k, ?Q k)) ks\<rparr>)"
    using Cons.prems(1,2) by (intro Cons.IH) auto
  then show ?case using a ep by simp
qed

lemma map_filter_the:
  "\<forall>x \<in> set xs. f x \<noteq> None \<Longrightarrow> List.map_filter f xs = map (\<lambda>x. the (f x)) xs"
  by (induction xs) (auto simp: List.map_filter_simps)

lemma sorted_values_the:
  "sorted_values d = map (\<lambda>k. the (map_of d k)) (sort (map fst d))"
  unfolding sorted_values_def
  by (rule map_filter_the) (auto simp: map_of_eq_None_iff)

lemma map_of_tabulate:
  "map_of (map (\<lambda>k. (k, h k)) ks) x = (if x \<in> set ks then Some (h x) else None)"
  by (induction ks) auto


lemma round_trip_inv:
  assumes "graph_inv g"
  shows "\<exists>g'. from_dict (to_dict g) = Inr g' \<and>
           same_bags (g_nodes g') (g_nodes g) \<and> same_bags (g_edges g') (g_edges g)"
proof -
  let ?ksN = "sort (map fst (g_nodes g))"
  let ?fN = "\<lambda>k. the (map_of (g_nodes g) k)"
  let ?P = "\<lambda>k. py_dict ((''id'', VStr k) # filter (\<lambda>(k', v). k' \<noteq> ''id'') (?fN k))"
  let ?ksE = "sort (map fst (g_edges g))"
  let ?fE = "\<lambda>k. the (map_of (g_edges g) k)"
  let ?Q = "\<lambda>k. py_dict (edge_items k
              (filter (\<lambda>(k', v). k' \<notin> {''nodes'', ''source'', ''target''}) (?fE k)))"
  let ?g1 = "empty_graph\<lparr>g_nodes := g_nodes empty_graph @ map (\<lambda>k. (k, ?P k)) ?ksN\<rparr>"
  let ?g2 = "?g1\<lparr>g_edges := g_edges ?g1 @ map (\<lambda>k. (k, ?Q k)) ?ksE\<rparr>"
  have dn: "distinct (map fst (g_nodes g))" and de: "distinct (map fst (g_edges g))"
    using assms by (simp_all add: graph_inv_def)
  have nb: "node_bag_ok k (?fN k)" if "k \<in> fst ` set (g_nodes g)" for k
  proof -
    from that obtain bag where b: "(k, bag) \<in> set (g_nodes g)" by auto
    then have "map_of (g_nodes g) k = Some bag" using dn by simp
    then show ?thesis using b assms by (auto simp: graph_inv_def)
  qed
  have eb: "edge_bag_ok g k (?fE k)" if "k \<in> fst ` set (g_edges g)" for k
  proof -
    from that obtain bag where b: "(k, bag) \<in> set (g_edges g)" by auto
    then have "map_of (g_edges g) k = Some bag" using de by simp
    then show ?thesis using b assms by (auto simp: graph_inv_def)
  qed
  have ln: "load_nodes empty_graph (map ?fN ?ksN) = Inr ?g1"
    using dn nb by (intro load_nodes_fresh) (auto simp: empty_graph_def)
  have keys1: "fst ` set (g_nodes ?g1) = fst ` set (g_nodes g)"
    by (force simp: empty_graph_def)
  have "\<forall>k \<in> set ?ksE. edge_bag_ok ?g1 k (?fE k)"
  proof
    fix k assume "k \<in> set ?ksE"
    then have "edge_bag_ok g k (?fE k)" using eb by simp
    then show "edge_bag_ok ?g1 k (?fE k)"
      using keys1 by (intro edge_bag_ok_nodes[of g ?g1]) auto
  qed
  then have le: "load_edges ?g1 (map ?fE ?ksE) = Inr ?g2"
    using de by (intro load_edges_fresh) (auto simp: empty_graph_def)
  have fd: "from_dict (to_dict g) = Inr ?g2"
    using ln le by (simp add: from_dict_def to_dict_def sorted_values_the)
  have sn: "same_bags (g_nodes ?g2) (g_nodes g)"
    unfolding same_bags_def
  proof
    fix k
    show "rel_option (\<lambda>a b. map_of a = map_of b) (map_of (g_nodes ?g2) k) (map_of (g_nodes g) k)"
    proof (cases "k \<in> fst ` set (g_nodes g)")
      case True
      then obtain bag where b: "map_of (g_nodes g) k = Some bag"
        by (meson map_of_eq_None_iff not_None_eq)
      have "map_of (g_nodes ?g2) k = Some (?P k)"
        using True by (simp add: empty_graph_def map_of_tabulate)
      then show ?thesis using b node_repack[OF nb[OF True]] by simp
    next
      case False
      then have "map_of (g_nodes g) k = None" by (simp add: map_of_eq_None_iff)
      moreover have "map_of (g_nodes ?g2) k = None"
        using False by (simp add: empty_graph_def map_of_tabulate)
      ultimately show ?thesis by simp
    qed
  qed
  have se: "same_bags (g_edges ?g2) (g_edges g)"
    unfolding same_bags_def
  proof
    fix k
    show "rel_option (\<lambda>a b. map_of a = map_of b) (map_of (g_edges ?g2) k) (map_of (g_edges g) k)"
    proof (cases "k \<in> fst ` set (g_edges g)")
      case True
      then obtain bag where b: "map_of (g_edges g) k = Some bag"
        by (meson map_of_eq_None_iff not_None_eq)
      have "map_of (g_edges ?g2) k = Some (?Q k)"
        using True by (simp add: empty_graph_def map_of_tabulate)
      then show ?thesis using b edge_repack[OF eb[OF True]] by simp
    next
      case False
      then have "map_of (g_edges g) k = None" by (simp add: map_of_eq_None_iff)
      moreover have "map_of (g_edges ?g2) k = None"
        using False by (simp add: empty_graph_def map_of_tabulate)
      ultimately show ?thesis by simp
    qed
  qed
  show ?thesis using fd sn se by blast
qed

text \<open>
  Claim C3, as stated, fails: \<open>add_edge("A", "B", nodes=["A"])\<close> stores a bag whose
  \<open>nodes\<close> value is the attribute, not the pair of endpoints; the document holds that bag,
  and loading it raises the error for an edge without endpoints.
\<close>

theorem round_trip_counterexample:
  "build empty_graph cx_ops = Inr cx_graph \<and> from_dict (to_dict cx_graph) = Inl MalformedEdge"
proof -
  have 1: "build empty_graph cx_ops = Inr cx_graph"
    by (simp add: cx_ops_def add_node_def add_edge_def kwargs_clash_def empty_graph_def
          dict_has_def py_dict_def sorted_pair_def Let_def cx_graph_def)
  have 2: "from_dict (to_dict cx_graph) = Inl MalformedEdge"
    by (simp add: from_dict_def to_dict_def sorted_values_def cx_graph_def
          List.map_filter_simps add_node_def kwargs_clash_def empty_graph_def dict_has_def
          py_dict_def edge_endpoints_def dict_get_def Let_def)
  show ?thesis using 1 2 by blast
qed

text \<open>
  Claim C3, amended. For every graph built from \<open>add_node\<close> and \<open>add_edge\<close> calls in which
  no node attribute is named \<open>id\<close> and no edge attribute is named \<open>nodes\<close>, loading the
  document of the graph succeeds and yields a graph with the same nodes and edges, each
  with the same attribute bag, the order of keys ignored.
\<close>

theorem round_trip:
  assumes "list_all plain_op ops" and "build empty_graph ops = Inr g"
  shows "\<exists>g'. from_dict (to_dict g) = Inr g' \<and>
           same_bags (g_nodes g') (g_nodes g) \<and> same_bags (g_edges g') (g_edges g)"
  using build_inv[OF empty_graph_inv assms] by (rule round_trip_inv)

theorem round_trip_witness:
  "build empty_graph trip_ops = Inr trip_graph \<and>
   (\<exists>g'. from_dict (to_dict trip_graph) = Inr g' \<and>
      same_bags (g_nodes g') (g_nodes trip_graph) \<and>
      same_bags (g_edges g') (g_edges trip_graph))"
proof -
  have p: "list_all plain_op trip_ops" by (simp add: trip_ops_def)
  have b: "build empty_graph trip_ops = Inr trip_graph"
    by (simp add: trip_ops_def trip_graph_def add_node_def add_edge_def kwargs_clash_def
          empty_graph_def dict_has_def py_dict_def dict_update_def sorted_pair_def Let_def)
  from round_trip[OF p b] b show ?thesis by blast
qed

section \<open>Correctness of the search\<close>

lemma adj_ok_routes:
  assumes "adj_ok adj"
  shows "routes_ok (adj_get adj u)"
proof (cases "map_of adj u")
  case None
  then show ?thesis by (simp add: adj_get_def routes_ok_def)
next
  case (Some l)
  then have "(u, l) \<in> set adj" by (rule map_of_SomeD)
  then show ?thesis using assms by (auto simp: adj_ok_def list_all_iff)
qed

lemma adj_ok_edge:
  assumes "adj_ok adj" and "(v, a) \<in> set (adj_get adj u)"
  shows "edge_ok a" and "edge_of adj u v = Some a"
proof -
  have r: "routes_ok (adj_get adj u)" using assms(1) by (rule adj_ok_routes)
  show "edge_ok a" using r assms(2) by (auto simp: routes_ok_def list_all_iff)
  obtain a' where a': "map_of (adj_get adj u) v = Some a'"
    using assms(2) by (metis map_of_eq_None_iff not_None_eq fst_conv image_eqI)
  then have "(v, a') \<in> set (adj_get adj u)" by (rule map_of_SomeD)
  then have "a' = a" using r assms(2) by (auto simp: routes_ok_def list_all_iff)
  then show "edge_of adj u v = Some a" using a' by (simp add: edge_of_def)
qed

lemma edge_ok_weight:
  assumes "edge_ok a"
  shows "edge_weight a = Inr (weighted_cost a)" and "0 \<le> weighted_cost a"
    and "dict_get a ''approx_distance_km'' (VNum 0) = VNum (physical_distance a)"
  using assms
  by (auto simp: edge_ok_def edge_weight_def weighted_cost_def physical_distance_def
           split: pyval.splits sum.splits)

lemma edge_of_member: "edge_of adj u v = Some a \<Longrightarrow> (v, a) \<in> set (adj_get adj u)"
  by (auto simp: edge_of_def dest: map_of_SomeD)

lemma nodes_of_member: "(v, a) \<in> set (adj_get adj u) \<Longrightarrow> v \<in> nodes_of adj"
proof -
  assume m: "(v, a) \<in> set (adj_get adj u)"
  then obtain l where l: "map_of adj u = Some l" "(v, a) \<in> set l"
    by (cases "map_of adj u") (auto simp: adj_get_def)
  then have "(u, l) \<in> set adj" by (auto dest: map_of_SomeD)
  then show ?thesis using l(2) by (force simp: nodes_of_def)
qed

lemma finite_nodes_of: "finite (nodes_of adj)"
  by (auto simp: nodes_of_def)

lemma heappop_min:
  assumes "h \<noteq> []" and "heappop h = ((c, u), h')"
  shows "(c, u) \<in> set h" and "h' = remove1 (c, u) h"
    and "\<forall>c' v. (c', v) \<in> set h \<longrightarrow> c \<le> c'"
proof -
  have m: "Min (set h) = (c, u)" and h': "h' = remove1 (c, u) h"
    using assms(2) by (auto simp: heappop_def)
  have "Min (set h) \<in> set h" using assms(1) by (intro Min_in) auto
  then show "(c, u) \<in> set h" using m by simp
  show "h' = remove1 (c, u) h" by (rule h')
  show "\<forall>c' v. (c', v) \<in> set h \<longrightarrow> c \<le> c'"
  proof (intro allI impI)
    fix c' v assume "(c', v) \<in> set h"
    then have "Min (set h) \<le> (c', v)" by (intro Min_le) auto
    then have "(c, u) \<le> (c', v)" using m by simp
    then show "c \<le> c'" by (auto simp: less_eq_prod_def)
  qed
qed


lemma tree_ok_start: "tree_ok adj s distm prev S \<Longrightarrow> distm s = Some 0"
  by (simp add: tree_ok_def)

lemma tree_ok_nonneg: "tree_ok adj s distm prev S \<Longrightarrow> distm v = Some d \<Longrightarrow> 0 \<le> d"
  by (simp add: tree_ok_def)

lemma tree_ok_prev:
  "tree_ok adj s distm prev S \<Longrightarrow> prev v = Some u \<Longrightarrow> v \<noteq> s \<and> distm v \<noteq> None"
  by (simp add: tree_ok_def)

lemma tree_ok_parent:
  "tree_ok adj s distm prev S \<Longrightarrow> distm v = Some d \<Longrightarrow> v \<noteq> s \<Longrightarrow>
     \<exists>u a du. prev v = Some u \<and> u \<in> S \<and> (v, a) \<in> set (adj_get adj u) \<and>
              distm u = Some du \<and> d = du + weighted_cost a"
  by (simp add: tree_ok_def)

lemma tree_ok_path:
  "tree_ok adj s distm prev S \<Longrightarrow> distm v = Some d \<Longrightarrow> \<exists>p. prev_path prev s v p"
  unfolding tree_ok_def by blast

lemma tree_okI:
  assumes "distm s = Some 0"
    and "\<And>v d. distm v = Some d \<Longrightarrow> 0 \<le> d"
    and "\<And>v u. prev v = Some u \<Longrightarrow> v \<noteq> s \<and> distm v \<noteq> None"
    and "\<And>v d. distm v = Some d \<Longrightarrow> v \<noteq> s \<Longrightarrow>
           \<exists>u a du. prev v = Some u \<and> u \<in> S \<and> (v, a) \<in> set (adj_get adj u) \<and>
                    distm u = Some du \<and> d = du + weighted_cost a"
    and "\<And>v d. distm v = Some d \<Longrightarrow> \<exists>p. prev_path prev s v p"
  shows "tree_ok adj s distm prev S"
  unfolding tree_ok_def using assms by blast

lemma set_butlast_last: "p \<noteq> [] \<Longrightarrow> set p = insert (last p) (set (butlast p))"
  by (cases p rule: rev_cases) auto

lemma prev_path_ends: "prev_path prev s v p \<Longrightarrow> p \<noteq> [] \<and> hd p = s \<and> last p = v"
  by (induction rule: prev_path.induct) auto

lemma prev_path_cong:
  "prev_path prev s v p \<Longrightarrow> (\<forall>x \<in> set p. prev' x = prev x) \<Longrightarrow> prev_path prev' s v p"
proof (induction rule: prev_path.induct)
  case start
  then show ?case by (simp add: prev_path.start)
next
  case (step u p v)
  then have "prev_path prev' s u p" and "prev' v = Some u" by auto
  then show ?case using step.hyps(3) by (rule prev_path.step)
qed

lemma prev_path_settled:
  assumes "tree_ok adj s distm prev S" and "prev_path prev s v p"
  shows "set (butlast p) \<subseteq> S"
  using assms(2)
proof (induction rule: prev_path.induct)
  case start
  then show ?case by simp
next
  case (step u p v)
  have ends: "p \<noteq> []" "last p = u" using prev_path_ends[OF step.hyps(1)] by auto
  from tree_ok_prev[OF assms(1) step.hyps(2)] obtain d where d: "distm v = Some d" "v \<noteq> s"
    by auto
  from tree_ok_parent[OF assms(1) d] step.hyps(2) have "u \<in> S" by auto
  then show ?case using step.IH ends set_butlast_last[OF ends(1)] by auto
qed

lemma prev_path_all_settled:
  assumes "tree_ok adj s distm prev S" and "prev_path prev s v p" and "v \<in> S"
  shows "set p \<subseteq> S"
  using prev_path_settled[OF assms(1,2)] prev_path_ends[OF assms(2)] assms(3)
    set_butlast_last[of p] by auto

lemma prev_path_avoids:
  assumes "tree_ok adj s distm prev S" and "prev_path prev s v p" and "y \<notin> S" and "v \<noteq> y"
  shows "y \<notin> set p"
  using prev_path_settled[OF assms(1,2)] prev_path_ends[OF assms(2)] assms(3,4)
    set_butlast_last[of p] by auto

lemma settled_push:
  assumes "y \<notin> settled distm h"
  shows "settled (distm(y \<mapsto> n)) (h @ [(n, y)]) = settled distm h"
  using assms by (auto simp: settled_def)

lemma heap_ok_entry:
  "heap_ok distm h \<Longrightarrow> (c, v) \<in> set h \<Longrightarrow> \<exists>d. distm v = Some d \<and> d \<le> c"
  by (simp add: heap_ok_def)

lemma heap_ok_push:
  assumes "heap_ok distm h" and "improves n (distm y)"
  shows "heap_ok (distm(y \<mapsto> n)) (h @ [(n, y)])"
proof -
  have new: "(n, y) \<notin> set h"
  proof
    assume "(n, y) \<in> set h"
    then obtain d where "distm y = Some d" "d \<le> n" using heap_ok_entry[OF assms(1)] by blast
    then show False using assms(2) by (simp add: improves_def)
  qed
  have "\<exists>d. (distm(y \<mapsto> n)) v = Some d \<and> d \<le> c" if "(c, v) \<in> set (h @ [(n, y)])" for c v
  proof (cases "(c, v) \<in> set h")
    case True
    then obtain d where d: "distm v = Some d" "d \<le> c" using heap_ok_entry[OF assms(1)] by blast
    show ?thesis
    proof (cases "v = y")
      case True
      then have "n < d" using assms(2) d(1) by (simp add: improves_def)
      then show ?thesis using True d(2) by simp
    next
      case False
      then show ?thesis using d by simp
    qed
  next
    case False
    then have "c = n" "v = y" using that by auto
    then show ?thesis by simp
  qed
  moreover have "distinct (h @ [(n, y)])" using assms(1) new by (simp add: heap_ok_def)
  ultimately show ?thesis by (simp add: heap_ok_def)
qed

lemma tree_ok_update:
  assumes t: "tree_ok adj s distm prev S"
    and u: "u \<in> S" "distm u = Some c" and y: "y \<notin> S"
    and e: "(y, a) \<in> set (adj_get adj u)" "0 \<le> weighted_cost a"
    and imp: "improves (c + weighted_cost a) (distm y)"
  shows "tree_ok adj s (distm(y \<mapsto> c + weighted_cost a)) (prev(y \<mapsto> u)) S"
proof (rule tree_okI)
  let ?n = "c + weighted_cost a"
  have c0: "0 \<le> c" using tree_ok_nonneg[OF t u(2)] .
  have s0: "distm s = Some 0" using tree_ok_start[OF t] .
  have ys: "y \<noteq> s" using imp s0 c0 e(2) by (auto simp: improves_def)
  have uy: "u \<noteq> y" using u(1) y by auto
  show "(distm(y \<mapsto> ?n)) s = Some 0" using s0 ys by simp
  show "0 \<le> d" if "(distm(y \<mapsto> ?n)) v = Some d" for v d
  proof (cases "v = y")
    case True
    then show ?thesis using that c0 e(2) by simp
  next
    case False
    then show ?thesis using that tree_ok_nonneg[OF t, of v d] by simp
  qed
  show "v \<noteq> s \<and> (distm(y \<mapsto> ?n)) v \<noteq> None" if "(prev(y \<mapsto> u)) v = Some w" for v w
  proof (cases "v = y")
    case True
    then show ?thesis using ys by simp
  next
    case False
    then show ?thesis using that tree_ok_prev[OF t, of v w] by simp
  qed
  show "\<exists>w b dw. (prev(y \<mapsto> u)) v = Some w \<and> w \<in> S \<and> (v, b) \<in> set (adj_get adj w) \<and>
                   (distm(y \<mapsto> ?n)) w = Some dw \<and> d = dw + weighted_cost b"
    if "(distm(y \<mapsto> ?n)) v = Some d" "v \<noteq> s" for v d
  proof (cases "v = y")
    case True
    then have "d = ?n" using that(1) by simp
    then show ?thesis using True u uy e(1) by auto
  next
    case False
    then have "distm v = Some d" using that(1) by simp
    from tree_ok_parent[OF t this that(2)] obtain w b dw where
      w: "prev v = Some w" "w \<in> S" "(v, b) \<in> set (adj_get adj w)" "distm w = Some dw"
         "d = dw + weighted_cost b"
      by blast
    have "w \<noteq> y" using w(2) y by auto
    then show ?thesis using w False by auto
  qed
  have pu: "\<exists>p. prev_path (prev(y \<mapsto> u)) s u p"
  proof -
    from tree_ok_path[OF t u(2)] obtain p where p: "prev_path prev s u p" ..
    have "set p \<subseteq> S" using t p u(1) by (rule prev_path_all_settled)
    then have "\<forall>x \<in> set p. (prev(y \<mapsto> u)) x = prev x" using y by auto
    with p have "prev_path (prev(y \<mapsto> u)) s u p" by (rule prev_path_cong)
    then show ?thesis ..
  qed
  show "\<exists>p. prev_path (prev(y \<mapsto> u)) s v p" if "(distm(y \<mapsto> ?n)) v = Some d" for v d
  proof (cases "v = y")
    case True
    from pu obtain p where "prev_path (prev(y \<mapsto> u)) s u p" ..
    then have "prev_path (prev(y \<mapsto> u)) s y (p @ [y])" using ys by (intro prev_path.step) auto
    then show ?thesis using True by blast
  next
    case False
    then have "distm v = Some d" using that by simp
    from tree_ok_path[OF t this] obtain p where p: "prev_path prev s v p" ..
    have "y \<notin> set p" using t p y False by (rule prev_path_avoids)
    then have "\<forall>x \<in> set p. (prev(y \<mapsto> u)) x = prev x" by auto
    with p have "prev_path (prev(y \<mapsto> u)) s v p" by (rule prev_path_cong)
    then show ?thesis ..
  qed
qed


lemma tree_ok_mono:
  assumes "tree_ok adj s distm prev S" and "S \<subseteq> S'"
  shows "tree_ok adj s distm prev S'"
proof (rule tree_okI)
  show "distm s = Some 0" using tree_ok_start[OF assms(1)] .
  show "0 \<le> d" if "distm v = Some d" for v d using tree_ok_nonneg[OF assms(1) that] .
  show "v \<noteq> s \<and> distm v \<noteq> None" if "prev v = Some u" for v u
    using tree_ok_prev[OF assms(1) that] .
  show "\<exists>u a du. prev v = Some u \<and> u \<in> S' \<and> (v, a) \<in> set (adj_get adj u) \<and>
                    distm u = Some du \<and> d = du + weighted_cost a"
    if "distm v = Some d" "v \<noteq> s" for v d
    using tree_ok_parent[OF assms(1) that] assms(2) by blast
  show "\<exists>p. prev_path prev s v p" if "distm v = Some d" for v d
    using tree_ok_path[OF assms(1) that] .
qed

lemma relaxed_mono:
  assumes "relaxed distm x es" and "x \<noteq> y" and "improves n (distm y)"
  shows "relaxed (distm(y \<mapsto> n)) x es"
  unfolding relaxed_def
proof (intro allI impI)
  fix z b assume "(z, b) \<in> set es"
  with assms(1) obtain dx dz where
    d: "distm x = Some dx" "distm z = Some dz" "dz \<le> dx + weighted_cost b"
    unfolding relaxed_def by blast
  show "\<exists>dx dy. (distm(y \<mapsto> n)) x = Some dx \<and> (distm(y \<mapsto> n)) z = Some dy \<and>
                dy \<le> dx + weighted_cost b"
  proof (cases "z = y")
    case True
    then have "n < dz" using assms(3) d(2) by (simp add: improves_def)
    then show ?thesis using True d assms(2) by auto
  next
    case False
    then show ?thesis using d assms(2) by auto
  qed
qed

lemma relaxed_append:
  "relaxed distm x (es @ fs) = (relaxed distm x es \<and> relaxed distm x fs)"
  by (auto simp: relaxed_def)

lemma rinvD:
  assumes "rinv adj s c u seen (distm, prev, h)"
  shows "tree_ok adj s distm prev (settled distm h)" and "heap_ok distm h"
    and "distm u = Some c" and "u \<in> settled distm h"
    and "\<And>x. x \<in> settled distm h \<Longrightarrow> \<exists>d. distm x = Some d \<and> d \<le> c"
    and "\<And>c' v. (c', v) \<in> set h \<Longrightarrow> c \<le> c'"
    and "\<And>x. x \<in> settled distm h \<Longrightarrow> x \<noteq> u \<Longrightarrow> relaxed distm x (adj_get adj x)"
    and "relaxed distm u seen"
  using assms by (auto simp: rinv_def)

lemma rinvI:
  assumes "tree_ok adj s distm prev (settled distm h)" and "heap_ok distm h"
    and "distm u = Some c" and "u \<in> settled distm h"
    and "\<And>x. x \<in> settled distm h \<Longrightarrow> \<exists>d. distm x = Some d \<and> d \<le> c"
    and "\<And>c' v. (c', v) \<in> set h \<Longrightarrow> c \<le> c'"
    and "\<And>x. x \<in> settled distm h \<Longrightarrow> x \<noteq> u \<Longrightarrow> relaxed distm x (adj_get adj x)"
    and "relaxed distm u seen"
  shows "rinv adj s c u seen (distm, prev, h)"
  using assms by (auto simp: rinv_def)

lemma relax_improve:
  assumes ok: "adj_ok adj" and r: "rinv adj s c u seen (distm, prev, h)"
    and e: "(y, a) \<in> set (adj_get adj u)"
    and imp: "improves (c + weighted_cost a) (distm y)"
  shows "rinv adj s c u (seen @ [(y, a)])
           (distm(y \<mapsto> c + weighted_cost a), prev(y \<mapsto> u), h @ [(c + weighted_cost a, y)])"
    and "settled (distm(y \<mapsto> c + weighted_cost a)) (h @ [(c + weighted_cost a, y)])
           = settled distm h"
proof -
  let ?n = "c + weighted_cost a"
  let ?S = "settled distm h"
  note r' = rinvD[OF r]
  have w0: "0 \<le> weighted_cost a" using edge_ok_weight(2)[OF adj_ok_edge(1)[OF ok e]] .
  have yS: "y \<notin> ?S"
  proof
    assume "y \<in> ?S"
    then obtain d where "distm y = Some d" "d \<le> c" using r'(5) by blast
    then show False using imp w0 by (simp add: improves_def)
  qed
  have uy: "u \<noteq> y" using r'(4) yS by auto
  show S: "settled (distm(y \<mapsto> ?n)) (h @ [(?n, y)]) = ?S" using yS by (rule settled_push)
  show "rinv adj s c u (seen @ [(y, a)]) (distm(y \<mapsto> ?n), prev(y \<mapsto> u), h @ [(?n, y)])"
  proof (rule rinvI; (unfold S)?)
    show "tree_ok adj s (distm(y \<mapsto> ?n)) (prev(y \<mapsto> u)) ?S"
      using r'(1) r'(4) r'(3) yS e w0 imp by (rule tree_ok_update)
    show "heap_ok (distm(y \<mapsto> ?n)) (h @ [(?n, y)])" using r'(2) imp by (rule heap_ok_push)
    show "(distm(y \<mapsto> ?n)) u = Some c" using r'(3) uy by simp
    show "u \<in> ?S" using r'(4) .
    show "\<exists>d. (distm(y \<mapsto> ?n)) x = Some d \<and> d \<le> c" if "x \<in> ?S" for x
    proof -
      have "x \<noteq> y" using that yS by auto
      then show ?thesis using r'(5)[OF that] by simp
    qed
    show "c \<le> c'" if "(c', v) \<in> set (h @ [(?n, y)])" for c' v
      using that r'(6) w0 by auto
    show "relaxed (distm(y \<mapsto> ?n)) x (adj_get adj x)" if "x \<in> ?S" "x \<noteq> u" for x
    proof -
      have "x \<noteq> y" using that(1) yS by auto
      with r'(7)[OF that] show ?thesis using imp by (intro relaxed_mono)
    qed
    have "relaxed (distm(y \<mapsto> ?n)) u seen" using r'(8) uy imp by (rule relaxed_mono)
    moreover have "relaxed (distm(y \<mapsto> ?n)) u [(y, a)]"
      using r'(3) uy by (simp add: relaxed_def)
    ultimately show "relaxed (distm(y \<mapsto> ?n)) u (seen @ [(y, a)])"
      by (simp add: relaxed_append)
  qed
qed

lemma relax_keep:
  assumes r: "rinv adj s c u seen (distm, prev, h)"
    and imp: "\<not> improves (c + weighted_cost a) (distm y)"
  shows "rinv adj s c u (seen @ [(y, a)]) (distm, prev, h)"
proof -
  note r' = rinvD[OF r]
  from imp obtain d where "distm y = Some d" "d \<le> c + weighted_cost a"
    by (cases "distm y") (auto simp: improves_def)
  then have "relaxed distm u [(y, a)]" using r'(3) by (simp add: relaxed_def)
  then have "relaxed distm u (seen @ [(y, a)])" using r'(8) by (simp add: relaxed_append)
  then show ?thesis using r' by (intro rinvI) auto
qed

lemma relax_inv:
  assumes "adj_ok adj" and "rinv adj s c u seen st" and "set es \<subseteq> set (adj_get adj u)"
  shows "\<exists>distm' prev' h'. relax c u es st = Inr (distm', prev', h') \<and>
           rinv adj s c u (seen @ es) (distm', prev', h') \<and>
           settled distm' h' = settled (fst st) (snd (snd st))"
  using assms(2,3)
proof (induction es arbitrary: seen st)
  case Nil
  obtain distm prev h where st: "st = (distm, prev, h)" by (cases st)
  show ?case using Nil by (simp add: st)
next
  case (Cons e es)
  obtain distm prev h where st: "st = (distm, prev, h)" by (cases st)
  obtain y a where e: "e = (y, a)" by (cases e)
  have m: "(y, a) \<in> set (adj_get adj u)" using Cons.prems(2) e by simp
  have w: "edge_weight a = Inr (weighted_cost a)"
    using edge_ok_weight(1)[OF adj_ok_edge(1)[OF assms(1) m]] .
  have r: "rinv adj s c u seen (distm, prev, h)" using Cons.prems(1) st by simp
  show ?case
  proof (cases "improves (c + weighted_cost a) (distm y)")
    case True
    let ?st1 = "(distm(y \<mapsto> c + weighted_cost a), prev(y \<mapsto> u), h @ [(c + weighted_cost a, y)])"
    have r1: "rinv adj s c u (seen @ [(y, a)]) ?st1"
      and s1: "settled (distm(y \<mapsto> c + weighted_cost a)) (h @ [(c + weighted_cost a, y)])
                 = settled distm h"
      using relax_improve[OF assms(1) r m True] by auto
    have "\<exists>distm' prev' h'. relax c u es ?st1 = Inr (distm', prev', h') \<and>
           rinv adj s c u ((seen @ [(y, a)]) @ es) (distm', prev', h') \<and>
           settled distm' h' = settled (fst ?st1) (snd (snd ?st1))"
      by (rule Cons.IH[OF r1]) (use Cons.prems(2) in auto)
    then obtain distm' prev' h' where
      ih: "relax c u es ?st1 = Inr (distm', prev', h')"
      "rinv adj s c u ((seen @ [(y, a)]) @ es) (distm', prev', h')"
      "settled distm' h' = settled (fst ?st1) (snd (snd ?st1))"
      by blast
    have s2: "settled distm' h' = settled distm h"
      using ih(3) s1 by (simp only: fst_conv snd_conv)
    have stp: "relax c u (e # es) st = relax c u es ?st1"
      using True w by (simp add: st e Let_def heappush_def)
    show ?thesis unfolding stp
      using ih(1,2) s2 by (intro exI[of _ distm'] exI[of _ prev'] exI[of _ h']) (simp add: st e)
  next
    case False
    have r1: "rinv adj s c u (seen @ [(y, a)]) (distm, prev, h)"
      using r False by (rule relax_keep)
    have "\<exists>distm' prev' h'. relax c u es (distm, prev, h) = Inr (distm', prev', h') \<and>
           rinv adj s c u ((seen @ [(y, a)]) @ es) (distm', prev', h') \<and>
           settled distm' h' = settled (fst (distm, prev, h)) (snd (snd (distm, prev, h)))"
      by (rule Cons.IH[OF r1]) (use Cons.prems(2) in auto)
    then obtain distm' prev' h' where
      ih: "relax c u es (distm, prev, h) = Inr (distm', prev', h')"
      "rinv adj s c u ((seen @ [(y, a)]) @ es) (distm', prev', h')"
      "settled distm' h' = settled distm h"
      by auto
    have stp: "relax c u (e # es) st = relax c u es (distm, prev, h)"
      using False w by (simp add: st e Let_def)
    show ?thesis unfolding stp
      using ih by (intro exI[of _ distm'] exI[of _ prev'] exI[of _ h']) (simp add: st e)
  qed
qed


lemma dinvD:
  assumes "dinv adj s (distm, prev, h)"
  shows "tree_ok adj s distm prev (settled distm h)" and "heap_ok distm h"
    and "\<And>x c v. x \<in> settled distm h \<Longrightarrow> (c, v) \<in> set h \<Longrightarrow> \<exists>d. distm x = Some d \<and> d \<le> c"
    and "\<And>x. x \<in> settled distm h \<Longrightarrow> relaxed distm x (adj_get adj x)"
  using assms by (auto simp: dinv_def)

lemma dinvI:
  assumes "tree_ok adj s distm prev (settled distm h)" and "heap_ok distm h"
    and "\<And>x c v. x \<in> settled distm h \<Longrightarrow> (c, v) \<in> set h \<Longrightarrow> \<exists>d. distm x = Some d \<and> d \<le> c"
    and "\<And>x. x \<in> settled distm h \<Longrightarrow> relaxed distm x (adj_get adj x)"
  shows "dinv adj s (distm, prev, h)"
  using assms by (auto simp: dinv_def)

lemma dinv_initial: "dinv adj s ([s \<mapsto> 0::real], Map.empty, [(0, s)])"
proof -
  have S: "settled [s \<mapsto> 0::real] [(0, s)] = {}"
    by (auto simp: settled_def split: if_splits)
  have t: "tree_ok adj s [s \<mapsto> 0::real] Map.empty {}"
  proof (rule tree_okI)
    show "\<exists>p. prev_path Map.empty s v p" if "[s \<mapsto> 0::real] v = Some d" for v d
    proof -
      have "v = s" using that by (auto split: if_splits)
      then show ?thesis using prev_path.start by blast
    qed
  qed (auto split: if_splits)
  have h: "heap_ok [s \<mapsto> 0::real] [(0, s)]" by (simp add: heap_ok_def)
  show ?thesis using t h by (simp add: dinv_def S)
qed

lemma pop_fresh:
  assumes d: "dinv adj s (distm, prev, h)" and ne: "h \<noteq> []"
    and pop: "heappop h = ((c, u), h')" and ns: "\<not> stale c (distm u)"
  shows "rinv adj s c u [] (distm, prev, h')"
    and "settled distm h' = insert u (settled distm h)"
    and "u \<notin> settled distm h"
proof -
  note d' = dinvD[OF d]
  note m = heappop_min[OF ne pop]
  from heap_ok_entry[OF d'(2) m(1)] obtain du where du: "distm u = Some du" "du \<le> c" by blast
  then have uc: "distm u = Some c" using ns by (simp add: stale_def)
  have dh: "distinct h" using d'(2) by (simp add: heap_ok_def)
  have sh: "set h' = set h - {(c, u)}" using dh m(2) by simp
  show nu: "u \<notin> settled distm h" using uc m(1) by (simp add: settled_def)
  show S: "settled distm h' = insert u (settled distm h)"
    using uc by (auto simp: settled_def sh)
  show "rinv adj s c u [] (distm, prev, h')"
  proof (rule rinvI; (unfold S)?)
    show "tree_ok adj s distm prev (insert u (settled distm h))"
      using d'(1) by (rule tree_ok_mono) auto
    show "heap_ok distm h'" using d'(2) dh by (auto simp: heap_ok_def sh m(2))
    show "distm u = Some c" by (rule uc)
    show "\<exists>dx. distm x = Some dx \<and> dx \<le> c" if "x \<in> insert u (settled distm h)" for x
    proof (cases "x = u")
      case True
      then show ?thesis using uc by simp
    next
      case False
      then have "x \<in> settled distm h" using that by simp
      then show ?thesis using d'(3) m(1) by blast
    qed
    show "c \<le> c'" if "(c', v) \<in> set h'" for c' v using that m(3) sh by auto
    show "relaxed distm x (adj_get adj x)" if "x \<in> insert u (settled distm h)" "x \<noteq> u" for x
      using that d'(4) by simp
    show "relaxed distm u []" by (simp add: relaxed_def)
  qed simp
qed

lemma pop_stale:
  assumes d: "dinv adj s (distm, prev, h)" and ne: "h \<noteq> []"
    and pop: "heappop h = ((c, u), h')" and st: "stale c (distm u)"
  shows "dinv adj s (distm, prev, h')" and "settled distm h' = settled distm h"
    and "length h' < length h"
proof -
  note d' = dinvD[OF d]
  note m = heappop_min[OF ne pop]
  from st obtain du where du: "distm u = Some du" "du < c"
    by (cases "distm u") (auto simp: stale_def)
  have dh: "distinct h" using d'(2) by (simp add: heap_ok_def)
  have sh: "set h' = set h - {(c, u)}" using dh m(2) by simp
  show S: "settled distm h' = settled distm h"
    using du by (auto simp: settled_def sh)
  show "length h' < length h" using m(1,2) by (simp add: length_remove1) (cases h; simp)
  show "dinv adj s (distm, prev, h')"
  proof (rule dinvI; (unfold S)?)
    show "tree_ok adj s distm prev (settled distm h)" by (rule d'(1))
    show "heap_ok distm h'" using d'(2) dh by (auto simp: heap_ok_def sh m(2))
    show "\<exists>dx. distm x = Some dx \<and> dx \<le> c'"
      if "x \<in> settled distm h" "(c', v) \<in> set h'" for x c' v
      using that d'(3) sh by blast
    show "relaxed distm x (adj_get adj x)" if "x \<in> settled distm h" for x
      using that d'(4) by simp
  qed
qed

lemma rinv_finished:
  assumes "rinv adj s c u (adj_get adj u) (distm, prev, h)"
  shows "dinv adj s (distm, prev, h)"
proof (rule dinvI)
  note r = rinvD[OF assms]
  show "tree_ok adj s distm prev (settled distm h)" by (rule r(1))
  show "heap_ok distm h" by (rule r(2))
  show "\<exists>d. distm x = Some d \<and> d \<le> c'" if "x \<in> settled distm h" "(c', v) \<in> set h" for x c' v
  proof -
    from r(5)[OF that(1)] obtain d where "distm x = Some d" "d \<le> c" by blast
    then show ?thesis using r(6)[OF that(2)] by auto
  qed
  show "relaxed distm x (adj_get adj x)" if "x \<in> settled distm h" for x
    using that r(7)[of x] r(8) by (cases "x = u") auto
qed

lemma valid_path_snoc:
  "valid_path adj (p @ [y]) = (p = [] \<or> (valid_path adj p \<and> edge_of adj (last p) y \<noteq> None))"
  by (induction adj p rule: valid_path.induct) auto

lemma path_sum_snoc:
  "p \<noteq> [] \<Longrightarrow> path_sum f adj (p @ [y]) =
     path_sum f adj p + (case edge_of adj (last p) y of None \<Rightarrow> 0 | Some a \<Rightarrow> f a)"
  by (induction f adj p rule: path_sum.induct) auto

lemma path_sum_single: "path_sum f adj [x] = 0"
  by simp

lemma dinv_lower_bound:
  assumes ok: "adj_ok adj" and d: "dinv adj s (distm, prev, h)"
  shows "valid_path adj p \<Longrightarrow> hd p = s \<Longrightarrow>
     (last p \<in> settled distm h \<and>
        (\<exists>dl. distm (last p) = Some dl \<and> dl \<le> path_sum weighted_cost adj p)) \<or>
     (\<exists>c v. (c, v) \<in> set h \<and> c \<le> path_sum weighted_cost adj p)"
proof (induction p rule: rev_induct)
  case Nil
  then show ?case by simp
next
  case (snoc y p)
  note d' = dinvD[OF d]
  show ?case
  proof (cases "p = []")
    case True
    then have ys: "y = s" using snoc.prems(2) by simp
    have s0: "distm s = Some 0" using tree_ok_start[OF d'(1)] .
    show ?thesis
    proof (cases "s \<in> settled distm h")
      case True
      then show ?thesis using s0 ys \<open>p = []\<close> by simp
    next
      case False
      then have "(0, s) \<in> set h" using s0 by (simp add: settled_def)
      then show ?thesis using ys \<open>p = []\<close> by auto
    qed
  next
    case False
    with snoc.prems have vp: "valid_path adj p" "hd p = s"
      and e: "edge_of adj (last p) y \<noteq> None"
      by (auto simp: valid_path_snoc)
    from e obtain a where a: "edge_of adj (last p) y = Some a" by blast
    have m: "(y, a) \<in> set (adj_get adj (last p))" using a by (rule edge_of_member)
    have w0: "0 \<le> weighted_cost a" using edge_ok_weight(2)[OF adj_ok_edge(1)[OF ok m]] .
    have sum: "path_sum weighted_cost adj (p @ [y]) = path_sum weighted_cost adj p + weighted_cost a"
      using False a by (simp add: path_sum_snoc)
    from snoc.IH[OF vp] show ?thesis
    proof
      assume A: "last p \<in> settled distm h \<and>
        (\<exists>dl. distm (last p) = Some dl \<and> dl \<le> path_sum weighted_cost adj p)"
      then obtain dl where dl: "distm (last p) = Some dl" "dl \<le> path_sum weighted_cost adj p"
        by blast
      from d'(4)[of "last p"] A m obtain dy where
        dy: "distm y = Some dy" "dy \<le> dl + weighted_cost a"
        using dl(1) unfolding relaxed_def by fastforce
      have le: "dy \<le> path_sum weighted_cost adj (p @ [y])" using dy(2) dl(2) sum by simp
      show ?thesis
      proof (cases "y \<in> settled distm h")
        case True
        then show ?thesis using dy(1) le by simp
      next
        case False
        then have "(dy, y) \<in> set h" using dy(1) by (simp add: settled_def)
        then show ?thesis using le by blast
      qed
    next
      assume "\<exists>c v. (c, v) \<in> set h \<and> c \<le> path_sum weighted_cost adj p"
      then obtain c v where "(c, v) \<in> set h" "c \<le> path_sum weighted_cost adj p" by blast
      then have "(c, v) \<in> set h \<and> c \<le> path_sum weighted_cost adj (p @ [y])"
        using sum w0 by simp
      then show ?thesis by blast
    qed
  qed
qed

lemma settled_subset:
  assumes "tree_ok adj s distm prev S"
  shows "settled distm h \<subseteq> insert s (nodes_of adj)"
proof
  fix x assume "x \<in> settled distm h"
  then obtain d where d: "distm x = Some d" by (auto simp: settled_def)
  show "x \<in> insert s (nodes_of adj)"
  proof (cases "x = s")
    case True
    then show ?thesis by simp
  next
    case False
    from tree_ok_parent[OF assms d False] obtain u a where "(x, a) \<in> set (adj_get adj u)"
      by blast
    then show ?thesis using nodes_of_member by blast
  qed
qed

lemma loop_result:
  assumes ok: "adj_ok adj"
  shows "dinv adj s st \<Longrightarrow>
     \<exists>distm prev h. dijkstra_loop adj dest st = Some (Inr (distm, prev, h)) \<and>
       (\<exists>S. tree_ok adj s distm prev S) \<and>
       (\<forall>p. valid_path adj p \<and> hd p = s \<and> last p = dest \<longrightarrow>
          (\<exists>dd. distm dest = Some dd \<and> dd \<le> path_sum weighted_cost adj p))"
proof (induction st rule: wf_induct_rule[OF wf_measures[of
         "[\<lambda>st. card (insert s (nodes_of adj) - settled (fst st) (snd (snd st))),
           \<lambda>st. length (snd (snd st))]"]])
  case (1 st)
  let ?V = "insert s (nodes_of adj)"
  obtain distm prev h where st: "st = (distm, prev, h)" by (cases st)
  have d: "dinv adj s (distm, prev, h)" using "1.prems" st by simp
  note d' = dinvD[OF d]
  show ?case
  proof (cases "h = []")
    case True
    have run: "dijkstra_loop adj dest st = Some (Inr (distm, prev, h))"
      by (subst dijkstra_loop.simps) (simp add: st True)
    have opt: "\<exists>dd. distm dest = Some dd \<and> dd \<le> path_sum weighted_cost adj p"
      if "valid_path adj p \<and> hd p = s \<and> last p = dest" for p
      using dinv_lower_bound[OF ok d, of p] that True by auto
    show ?thesis using run d'(1) opt by blast
  next
    case False
    obtain c u h' where pop: "heappop h = ((c, u), h')" by (metis prod.exhaust)
    note m = heappop_min[OF False pop]
    show ?thesis
    proof (cases "u = dest")
      case True
      have run: "dijkstra_loop adj dest st = Some (Inr (distm, prev, h'))"
        by (subst dijkstra_loop.simps) (simp add: st False pop True)
      from heap_ok_entry[OF d'(2) m(1)] True obtain dd where
        dd: "distm dest = Some dd" "dd \<le> c" by blast
      have opt: "\<exists>dd. distm dest = Some dd \<and> dd \<le> path_sum weighted_cost adj p"
        if "valid_path adj p \<and> hd p = s \<and> last p = dest" for p
      proof -
        from dinv_lower_bound[OF ok d, of p] that
        have "(\<exists>dl. distm dest = Some dl \<and> dl \<le> path_sum weighted_cost adj p) \<or>
              (\<exists>c' v. (c', v) \<in> set h \<and> c' \<le> path_sum weighted_cost adj p)"
          by auto
        then show ?thesis
        proof
          assume "\<exists>c' v. (c', v) \<in> set h \<and> c' \<le> path_sum weighted_cost adj p"
          then obtain c' v where "(c', v) \<in> set h" "c' \<le> path_sum weighted_cost adj p" by blast
          then have "c \<le> path_sum weighted_cost adj p" using m(3) by force
          then show ?thesis using dd by auto
        qed simp
      qed
      show ?thesis using run d'(1) opt by blast
    next
      case nd: False
      show ?thesis
      proof (cases "stale c (distm u)")
        case True
        note p = pop_stale[OF d False pop True]
        have run: "dijkstra_loop adj dest st = dijkstra_loop adj dest (distm, prev, h')"
          by (subst dijkstra_loop.simps) (simp add: st False pop nd True)
        have "((distm, prev, h'), st) \<in> measures
           [\<lambda>st. card (?V - settled (fst st) (snd (snd st))), \<lambda>st. length (snd (snd st))]"
          using p(2,3) by (simp add: st)
        from "1.IH"[OF this p(1)] show ?thesis unfolding run .
      next
        case ns: False
        note p = pop_fresh[OF d False pop ns]
        from relax_inv[OF ok p(1), of "adj_get adj u"] obtain distm' prev' h'' where
          r: "relax c u (adj_get adj u) (distm, prev, h') = Inr (distm', prev', h'')"
             "rinv adj s c u (adj_get adj u) (distm', prev', h'')"
             "settled distm' h'' = settled distm h'"
          by auto
        have d1: "dinv adj s (distm', prev', h'')" using r(2) by (rule rinv_finished)
        have run: "dijkstra_loop adj dest st = dijkstra_loop adj dest (distm', prev', h'')"
          by (subst dijkstra_loop.simps) (simp add: st False pop nd ns r(1))
        have S': "settled distm' h'' = insert u (settled distm h)" using r(3) p(2) by simp
        have sub: "settled distm' h'' \<subseteq> ?V"
          using settled_subset[OF dinvD(1)[OF d1]] .
        have "?V - settled distm' h'' \<subset> ?V - settled distm h"
          using S' sub p(3) by auto
        then have "card (?V - settled distm' h'') < card (?V - settled distm h)"
          by (intro psubset_card_mono) (simp_all add: finite_nodes_of)
        then have "((distm', prev', h''), st) \<in> measures
           [\<lambda>st. card (?V - settled (fst st) (snd (snd st))), \<lambda>st. length (snd (snd st))]"
          by (simp add: st)
        from "1.IH"[OF this d1] show ?thesis unfolding run .
      qed
    qed
  qed
qed

lemma add_base_distance_first:
  "add_base_distance l cur t =
     (case map_of l cur of
        None \<Rightarrow> Inr t
      | Some a \<Rightarrow> py_add t (dict_get a ''approx_distance_km'' (VNum 0)))"
  by (induction l) auto

lemma reconstruct_path:
  assumes ok: "adj_ok adj" and t: "tree_ok adj s distm prev S"
  shows "prev_path prev s v p \<Longrightarrow> distm v = Some dv \<Longrightarrow>
     reconstruct adj prev s v path t0 =
       Some (Inr (path @ rev (tl p), t0 + path_sum physical_distance adj p)) \<and>
     valid_path adj p \<and> path_sum weighted_cost adj p = dv"
proof (induction arbitrary: path t0 dv rule: prev_path.induct)
  case start
  have "reconstruct adj prev s s path t0 = Some (Inr (path, t0))"
    by (subst reconstruct.simps) simp
  then show ?case using start tree_ok_start[OF t] by simp
next
  case (step u p v)
  from tree_ok_parent[OF t step.prems step.hyps(3)] step.hyps(2) obtain a du where
    a: "(v, a) \<in> set (adj_get adj u)" "distm u = Some du" "dv = du + weighted_cost a"
    by auto
  have e: "edge_of adj u v = Some a" using adj_ok_edge(2)[OF ok a(1)] .
  have pd: "dict_get a ''approx_distance_km'' (VNum 0) = VNum (physical_distance a)"
    using edge_ok_weight(3)[OF adj_ok_edge(1)[OF ok a(1)]] .
  have ab: "add_base_distance (adj_get adj u) v t0 = Inr (t0 + physical_distance a)"
    using e pd by (simp add: add_base_distance_first edge_of_def)
  have run: "reconstruct adj prev s v path t0 =
      reconstruct adj prev s u (path @ [v]) (t0 + physical_distance a)"
    by (subst reconstruct.simps) (simp add: step.hyps(2,3) ab)
  note ih = step.IH[OF a(2), of "path @ [v]" "t0 + physical_distance a"]
  have ends: "p \<noteq> []" "last p = u" using prev_path_ends[OF step.hyps(1)] by auto
  have 1: "rev (tl (p @ [v])) = v # rev (tl p)" using ends(1) by simp
  have 2: "path_sum physical_distance adj (p @ [v]) =
      path_sum physical_distance adj p + physical_distance a"
    using ends e by (simp add: path_sum_snoc)
  have 3: "path_sum weighted_cost adj (p @ [v]) = path_sum weighted_cost adj p + weighted_cost a"
    using ends e by (simp add: path_sum_snoc)
  have 4: "valid_path adj (p @ [v])" using ih ends e by (simp add: valid_path_snoc)
  show ?case unfolding run using ih 1 2 3 4 a(3) by simp
qed

lemma shortest_path_search:
  assumes "s \<noteq> []" and "d \<noteq> []" and "s \<noteq> d"
  shows "shortest_path adj (Some s) (Some d) =
     (case dijkstra_loop adj d ([s \<mapsto> 0], Map.empty, [(0, s)]) of
        None \<Rightarrow> None
      | Some (Inl e) \<Rightarrow> Some (Inl e)
      | Some (Inr (distm, prev, h)) \<Rightarrow>
          (case distm d of
             None \<Rightarrow> Some (Inr ([], 0, 0))
           | Some wc \<Rightarrow>
               (case reconstruct adj prev s d [] 0 of
                  None \<Rightarrow> None
                | Some (Inl e) \<Rightarrow> Some (Inl e)
                | Some (Inr (path, total_distance)) \<Rightarrow>
                    Some (Inr (rev (path @ [s]), total_distance, wc)))))"
  using assms by (auto simp: shortest_path_def unset_def split: option.splits sum.splits)

lemma far_end_named:
  assumes "valid_path adj p" and "hd p \<noteq> last p"
  shows "last p \<in> nodes_of adj"
proof (cases p rule: rev_cases)
  case Nil
  then show ?thesis using assms(1) by simp
next
  case (snoc q y)
  then have "q \<noteq> []" using assms(2) by auto
  then obtain a where "edge_of adj (last q) y = Some a"
    using assms(1) snoc by (auto simp: valid_path_snoc)
  then show ?thesis using snoc edge_of_member nodes_of_member by fastforce
qed

lemma near_end_routes:
  assumes "valid_path adj p" and "hd p \<noteq> last p"
  shows "adj_get adj (hd p) \<noteq> []"
proof -
  obtain x y r where p: "p = x # y # r"
    using assms by (cases p; cases "tl p") auto
  then have "edge_of adj x y \<noteq> None" using assms(1) by simp
  then show ?thesis using p by (auto simp: edge_of_def)
qed


lemma search_outcome:
  assumes ok: "adj_ok adj" and n: "s \<noteq> []" "d \<noteq> []" "s \<noteq> d"
  shows "(\<not> reachable adj s d \<longrightarrow> shortest_path adj (Some s) (Some d) = Some (Inr ([], 0, 0))) \<and>
         (reachable adj s d \<longrightarrow>
            (\<exists>p. shortest_path adj (Some s) (Some d) =
                    Some (Inr (p, path_sum physical_distance adj p, path_sum weighted_cost adj p)) \<and>
                 path_from_to adj s d p \<and>
                 (\<forall>q. path_from_to adj s d q \<longrightarrow>
                    path_sum weighted_cost adj p \<le> path_sum weighted_cost adj q)))"
proof -
  from loop_result[OF ok dinv_initial, where s = s and dest = d] obtain distm prev h S where
    run: "dijkstra_loop adj d ([s \<mapsto> 0], Map.empty, [(0, s)]) = Some (Inr (distm, prev, h))"
    and t: "tree_ok adj s distm prev S"
    and opt: "\<And>p. valid_path adj p \<and> hd p = s \<and> last p = d \<Longrightarrow>
                \<exists>dd. distm d = Some dd \<and> dd \<le> path_sum weighted_cost adj p"
    by blast
  note sp = shortest_path_search[OF n, of adj, unfolded run]
  have found: "\<exists>p. shortest_path adj (Some s) (Some d) =
                    Some (Inr (p, path_sum physical_distance adj p, dd)) \<and>
                 path_from_to adj s d p \<and> path_sum weighted_cost adj p = dd"
    if dd: "distm d = Some dd" for dd
  proof -
    from tree_ok_path[OF t dd] obtain p where p: "prev_path prev s d p" ..
    note r = reconstruct_path[OF ok t p dd, of "[]" 0]
    have ends: "p \<noteq> []" "hd p = s" "last p = d" using prev_path_ends[OF p] by auto
    have "rev (rev (tl p) @ [s]) = p" using ends(1,2) by (cases p) auto
    then have "shortest_path adj (Some s) (Some d) =
        Some (Inr (p, path_sum physical_distance adj p, dd))"
      using sp dd r by simp
    then show ?thesis using r ends by (auto simp: path_from_to_def)
  qed
  have 1: "shortest_path adj (Some s) (Some d) = Some (Inr ([], 0, 0))" if "\<not> reachable adj s d"
  proof (cases "distm d")
    case None
    then show ?thesis using sp by simp
  next
    case (Some dd)
    from found[OF Some] that show ?thesis by (auto simp: reachable_def)
  qed
  have 2: "\<exists>p. shortest_path adj (Some s) (Some d) =
                    Some (Inr (p, path_sum physical_distance adj p, path_sum weighted_cost adj p)) \<and>
                 path_from_to adj s d p \<and>
                 (\<forall>q. path_from_to adj s d q \<longrightarrow>
                    path_sum weighted_cost adj p \<le> path_sum weighted_cost adj q)"
    if "reachable adj s d"
  proof -
    from that obtain q0 where q0: "path_from_to adj s d q0" by (auto simp: reachable_def)
    from opt[of q0] q0 obtain dd where dd: "distm d = Some dd" by (auto simp: path_from_to_def)
    from found[OF dd] obtain p where
      p: "shortest_path adj (Some s) (Some d) =
            Some (Inr (p, path_sum physical_distance adj p, dd))"
         "path_from_to adj s d p" "path_sum weighted_cost adj p = dd"
      by blast
    have "path_sum weighted_cost adj p \<le> path_sum weighted_cost adj q"
      if "path_from_to adj s d q" for q
      using opt[of q] that dd p(3) by (auto simp: path_from_to_def)
    then show ?thesis using p by auto
  qed
  show ?thesis using 1 2 by blast
qed

text \<open>
  Claim C1. On a graph whose edges have a numeric distance and difficulty with a weight that
  is not negative and at most one edge between two nodes, for distinct nodes start and dest
  with dest reachable from start, \<open>shortest_path\<close> returns: it yields a path of the
  adjacency view from start to dest, the weighted cost of that path (the sum of distance
  times difficulty over its edges), which no path from start to dest undercuts, and the sum
  of the physical distances of its edges. The witness is the line A - B - C - D with
  distances 10 and difficulty 0.5 on B - C: weighted cost 25, physical distance 30.
\<close>

theorem shortest_path_minimal:
  assumes "adj_ok adj" and "s \<noteq> []" and "d \<noteq> []" and "s \<noteq> d" and "reachable adj s d"
  shows "\<exists>p phys wc. shortest_path adj (Some s) (Some d) = Some (Inr (p, phys, wc)) \<and>
           path_from_to adj s d p \<and>
           wc = path_sum weighted_cost adj p \<and>
           (\<forall>q. path_from_to adj s d q \<longrightarrow> wc \<le> path_sum weighted_cost adj q) \<and>
           phys = path_sum physical_distance adj p"
  using search_outcome[OF assms(1-4)] assms(5) by blast

lemma line_graph_ok: "adj_ok line_graph"
  by (simp add: adj_ok_def routes_ok_def edge_ok_def line_graph_def line_edge_def
        line_edge_bc_def adj_get_def dict_get_def dict_has_def difficulty_for_edge_def
        ROUTE_DIFFICULTY_def)

theorem shortest_path_minimal_witness:
  "shortest_path line_graph (Some ''A'') (Some ''D'') =
      Some (Inr ([''A'', ''B'', ''C'', ''D''], 30, 25)) \<and>
   path_from_to line_graph ''A'' ''D'' [''A'', ''B'', ''C'', ''D''] \<and>
   path_sum weighted_cost line_graph [''A'', ''B'', ''C'', ''D''] = 25 \<and>
   path_sum physical_distance line_graph [''A'', ''B'', ''C'', ''D''] = 30 \<and>
   path_from_to line_graph ''A'' ''D'' [''A'', ''B'', ''A'', ''B'', ''C'', ''D''] \<and>
   25 \<le> path_sum weighted_cost line_graph [''A'', ''B'', ''A'', ''B'', ''C'', ''D'']"
proof -
  have pf: "path_from_to line_graph ''A'' ''D'' [''A'', ''B'', ''C'', ''D'']"
    by (simp add: path_from_to_def edge_of_def adj_get_def line_graph_def)
  have pf2: "path_from_to line_graph ''A'' ''D'' [''A'', ''B'', ''A'', ''B'', ''C'', ''D'']"
    by (simp add: path_from_to_def edge_of_def adj_get_def line_graph_def)
  then have re: "reachable line_graph ''A'' ''D''" by (auto simp: reachable_def)
  have ev: "shortest_path line_graph (Some ''A'') (Some ''D'') =
      Some (Inr ([''A'', ''B'', ''C'', ''D''], 30, 25))"
    by code_simp
  from shortest_path_minimal[OF line_graph_ok _ _ _ re] ev
  have w: "25 = path_sum weighted_cost line_graph [''A'', ''B'', ''C'', ''D'']"
    and ph: "30 = path_sum physical_distance line_graph [''A'', ''B'', ''C'', ''D'']"
    and mn: "\<forall>q. path_from_to line_graph ''A'' ''D'' q \<longrightarrow>
               25 \<le> path_sum weighted_cost line_graph q"
    by auto
  have m2: "25 \<le> path_sum weighted_cost line_graph [''A'', ''B'', ''A'', ''B'', ''C'', ''D'']"
    using mn pf2 by blast
  show ?thesis using ev pf w ph pf2 m2 by simp
qed


lemma unset_result:
  "unset start \<or> unset dest \<Longrightarrow> shortest_path adj start dest = Some (Inr ([], 0, 0))"
  by (cases start; cases dest) (auto simp: shortest_path_def)

lemma same_node_result: "s \<noteq> [] \<Longrightarrow> shortest_path adj (Some s) (Some s) = Some (Inr ([s], 0, 0))"
  by (simp add: shortest_path_def unset_def)

lemma no_routes_result:
  assumes "s \<noteq> []" and "d \<noteq> []" and "s \<noteq> d" and "adj_get adj s = []"
  shows "shortest_path adj (Some s) (Some d) = Some (Inr ([], 0, 0))"
proof -
  have pop: "heappop [(0, s)] = ((0, s), [])" by (simp add: heappop_def)
  have 2: "dijkstra_loop adj d ([s \<mapsto> 0], Map.empty, []) = Some (Inr ([s \<mapsto> 0], Map.empty, []))"
    by (subst dijkstra_loop.simps) simp
  have 1: "dijkstra_loop adj d ([s \<mapsto> 0], Map.empty, [(0, s)]) =
      Some (Inr ([s \<mapsto> 0], Map.empty, []))"
    by (subst dijkstra_loop.simps) (simp add: pop assms stale_def 2)
  show ?thesis using assms(3) by (simp add: shortest_path_search[OF assms(1-3)] 1)
qed

lemma absent_unreachable:
  assumes "s \<noteq> d" and "adj_get adj s = [] \<or> d \<notin> nodes_of adj"
  shows "\<not> reachable adj s d"
proof
  assume "reachable adj s d"
  then obtain p where p: "valid_path adj p" "hd p = s" "last p = d"
    by (auto simp: reachable_def path_from_to_def)
  have "hd p \<noteq> last p" using p assms(1) by simp
  from far_end_named[OF p(1) this] near_end_routes[OF p(1) this] assms(2) p(2,3)
  show False by auto
qed

text \<open>
  Claim C5, as stated, fails: with start and dest both the node Z, which no edge of the graph
  names, \<open>shortest_path\<close> returns the path [Z], not the empty path.
\<close>

theorem absent_same_node_counterexample:
  "adj_get line_graph ''Z'' = [] \<and> ''Z'' \<notin> nodes_of line_graph \<and>
   shortest_path line_graph (Some ''Z'') (Some ''Z'') = Some (Inr ([''Z''], 0, 0))"
  by (simp add: adj_get_def nodes_of_def line_graph_def shortest_path_def unset_def)

text \<open>
  Claim C5, amended. \<open>shortest_path\<close> returns the empty path and zero distances, and no
  error, when either argument is unset; when start and dest differ and start has no routes;
  and, on a graph whose edges have a numeric distance and difficulty with a weight that is
  not negative, when start and dest differ and dest is unreachable from start, which is so
  whenever no edge names dest. With start equal to dest it returns the path of that one
  node, whether or not the graph has the node.
\<close>

theorem no_route_outcomes:
  "(unset start \<or> unset dest \<longrightarrow> shortest_path adj start dest = Some (Inr ([], 0, 0))) \<and>
   (s \<noteq> [] \<longrightarrow> shortest_path adj (Some s) (Some s) = Some (Inr ([s], 0, 0))) \<and>
   (s \<noteq> [] \<and> d \<noteq> [] \<and> s \<noteq> d \<and> adj_get adj s = [] \<longrightarrow>
      shortest_path adj (Some s) (Some d) = Some (Inr ([], 0, 0))) \<and>
   (adj_ok adj \<and> s \<noteq> [] \<and> d \<noteq> [] \<and> s \<noteq> d \<and> \<not> reachable adj s d \<longrightarrow>
      shortest_path adj (Some s) (Some d) = Some (Inr ([], 0, 0))) \<and>
   (s \<noteq> d \<and> (adj_get adj s = [] \<or> d \<notin> nodes_of adj) \<longrightarrow> \<not> reachable adj s d)"
  using unset_result[of start dest adj] same_node_result[of s adj] no_routes_result[of s d adj]
    search_outcome[of adj s d] absent_unreachable[of s d adj]
  by blast

theorem no_route_outcomes_witness:
  "shortest_path line_graph None (Some ''A'') = Some (Inr ([], 0, 0)) \<and>
   shortest_path line_graph (Some ''A'') (Some []) = Some (Inr ([], 0, 0)) \<and>
   shortest_path line_graph (Some ''A'') (Some ''A'') = Some (Inr ([''A''], 0, 0)) \<and>
   shortest_path line_graph (Some ''Z'') (Some ''A'') = Some (Inr ([], 0, 0)) \<and>
   shortest_path line_graph (Some ''A'') (Some ''Z'') = Some (Inr ([], 0, 0))"
proof -
  have z: "adj_get line_graph ''Z'' = []" "''Z'' \<notin> nodes_of line_graph"
    by (simp_all add: adj_get_def nodes_of_def line_graph_def)
  have u: "unset None" "unset (Some [])" by (simp_all add: unset_def)
  have 1: "shortest_path line_graph None (Some ''A'') = Some (Inr ([], 0, 0))"
    using no_route_outcomes[of None "Some ''A''" line_graph] u by blast
  have 2: "shortest_path line_graph (Some ''A'') (Some []) = Some (Inr ([], 0, 0))"
    using no_route_outcomes[of "Some ''A''" "Some []" line_graph] u by blast
  have 3: "shortest_path line_graph (Some ''A'') (Some ''A'') = Some (Inr ([''A''], 0, 0))"
    using no_route_outcomes[where adj = line_graph and s = "''A''"] by simp
  have 4: "shortest_path line_graph (Some ''Z'') (Some ''A'') = Some (Inr ([], 0, 0))"
    using no_route_outcomes[where adj = line_graph and s = "''Z''" and d = "''A''"] z by simp
  have "\<not> reachable line_graph ''A'' ''Z''"
    using no_route_outcomes[where adj = line_graph and s = "''A''" and d = "''Z''"] z by simp
  then have 5: "shortest_path line_graph (Some ''A'') (Some ''Z'') = Some (Inr ([], 0, 0))"
    using no_route_outcomes[where adj = line_graph and s = "''A''" and d = "''Z''"]
      line_graph_ok by simp
  show ?thesis using 1 2 3 4 5 by blast
qed

end
